theory Spec2Isabelle
  imports Complex_Main "HOL-Library.Multiset" "HOL-Library.Char_ord"
    "HOL-Library.List_Lexorder" "HOL-Library.Product_Lexorder" "HOL-Library.Sublist"
begin

section \<open>Errors\<close>

text \<open>
  The Python exceptions the modelled code raises or lets through, each with its message.
  A function that may raise returns \<open>error + 'a\<close>, with \<open>Inl\<close> for the exception.
\<close>

datatype error =
    ValueError string
  | FileNotFoundError string
  | RemoteError string
  | TclError string
  | KeyError string
  | NameError string

fun str_of_error :: "error \<Rightarrow> string" where
  "str_of_error (ValueError m) = m"
| "str_of_error (FileNotFoundError m) = m"
| "str_of_error (RemoteError m) = m"
| "str_of_error (TclError m) = m"
| "str_of_error (KeyError m) = m"
| "str_of_error (NameError m) = m"

section \<open>Data models (models/data\_models.py)\<close>

subsection \<open>FileItem\<close>

text \<open>
  The dataclass \<open>FileItem\<close>. The fields \<open>id\<close> and \<open>size\<close> are named \<open>item_id\<close> and
  \<open>item_size\<close> here, since \<open>id\<close> and \<open>size\<close> are constants of HOL.
\<close>

record file_item =
  item_id :: string
  title :: string
  item_size :: int
  modified_date :: string
  mime_type :: string
  is_folder :: bool
  parent_id :: string

text \<open>
  The generated \<open>__init__\<close> stores the seven fields and then runs \<open>__post_init__\<close>:
  \<open>if not self.id: raise ValueError(...)\<close>, then the same test on \<open>self.title\<close>.
  For a \<open>str\<close>, \<open>not s\<close> holds exactly for the empty string.
\<close>

definition FileItem ::
  "string \<Rightarrow> string \<Rightarrow> int \<Rightarrow> string \<Rightarrow> string \<Rightarrow> bool \<Rightarrow> string \<Rightarrow> error + file_item" where
  "FileItem i t s md mt isf p =
     (if i = [] then Inl (ValueError ''File ID cannot be empty'')
      else if t = [] then Inl (ValueError ''File title cannot be empty'')
      else Inr \<lparr>item_id = i, title = t, item_size = s, modified_date = md,
                mime_type = mt, is_folder = isf, parent_id = p\<rparr>)"

subsection \<open>UploadProgress\<close>

record upload_progress =
  current_file :: string
  completed :: int
  total :: int
  status :: string

text \<open>
  The property \<open>percentage\<close>. Python's \<open>/\<close> on two ints is float division; the float is
  idealised here as the exact quotient in \<open>real\<close>.
\<close>

definition percentage :: "upload_progress \<Rightarrow> real" where
  "percentage p =
     (if total p = 0 then 0 else (real_of_int (completed p) / real_of_int (total p)) * 100)"

subsection \<open>NavigationState\<close>

text \<open>
  \<open>history\<close> is a Python list used as a stack: \<open>append\<close> pushes at the end and
  \<open>pop()\<close> removes the last element, so the top of the stack is the last element here.
\<close>

record navigation_state =
  current_folder_id :: string
  current_folder_name :: string
  history :: "(string \<times> string) list"

text \<open>\<open>__post_init__\<close> replaces a \<open>None\<close> history by the empty list.\<close>

definition NavigationState ::
  "string \<Rightarrow> string \<Rightarrow> (string \<times> string) list option \<Rightarrow> navigation_state" where
  "NavigationState fid fname h =
     \<lparr>current_folder_id = fid, current_folder_name = fname,
      history = (case h of None \<Rightarrow> [] | Some hs \<Rightarrow> hs)\<rparr>"

section \<open>ProgressTracker (utils/helpers.py)\<close>

text \<open>
  \<open>start_time\<close> is \<open>datetime.now()\<close> at construction; the clock reading is a parameter of
  the constructor.
\<close>

record progress_tracker =
  total_items :: int
  completed_items :: int
  current_item :: string
  start_time :: real
  errors :: "string list"

definition ProgressTracker :: "real \<Rightarrow> int \<Rightarrow> progress_tracker" where
  "ProgressTracker now n =
     \<lparr>total_items = n, completed_items = 0, current_item = [], start_time = now, errors = []\<rparr>"

definition update :: "progress_tracker \<Rightarrow> int \<Rightarrow> string \<Rightarrow> progress_tracker" where
  "update t c item = t\<lparr>completed_items := c, current_item := item\<rparr>"

definition add_error :: "progress_tracker \<Rightarrow> string \<Rightarrow> progress_tracker" where
  "add_error t e = t\<lparr>errors := errors t @ [e]\<rparr>"

definition tracker_percentage :: "progress_tracker \<Rightarrow> real" where
  "tracker_percentage t =
     (if total_items t = 0 then 0
      else (real_of_int (completed_items t) / real_of_int (total_items t)) * 100)"

text \<open>The calls a client can make on a tracker after constructing it.\<close>

datatype tracker_call = Update int string | AddError string

fun tracker_step :: "progress_tracker \<Rightarrow> tracker_call \<Rightarrow> progress_tracker" where
  "tracker_step t (Update c item) = update t c item"
| "tracker_step t (AddError e) = add_error t e"

definition tracker_run :: "real \<Rightarrow> int \<Rightarrow> tracker_call list \<Rightarrow> progress_tracker" where
  "tracker_run now n calls = foldl tracker_step (ProgressTracker now n) calls"

text \<open>A call respects the bound \<open>n\<close> when it is not an update beyond \<open>n\<close>.\<close>

fun within_total :: "int \<Rightarrow> tracker_call \<Rightarrow> bool" where
  "within_total n (Update c item) = (c \<le> n)"
| "within_total n (AddError e) = True"

section \<open>Navigation (gui/main\_window.py)\<close>

text \<open>
  The part of \<open>GoogleDriveSyncApp\<close> that navigation touches: the navigation state, and the
  calls of \<open>_refresh_files\<close>, recorded by the folder id that is current when the call is made.
\<close>

record app =
  navigation :: navigation_state
  refreshes :: "string list"

definition refresh_files :: "app \<Rightarrow> app" where
  "refresh_files a = a\<lparr>refreshes := refreshes a @ [current_folder_id (navigation a)]\<rparr>"

definition navigate_to_folder :: "app \<Rightarrow> string \<Rightarrow> string \<Rightarrow> app" where
  "navigate_to_folder a folder_id folder_name =
     (let nav = navigation a;
          nav1 = nav\<lparr>history := history nav @ [(current_folder_id nav, current_folder_name nav)]\<rparr>;
          nav2 = nav1\<lparr>current_folder_id := folder_id, current_folder_name := folder_name\<rparr>
      in refresh_files (a\<lparr>navigation := nav2\<rparr>))"

definition go_back :: "app \<Rightarrow> app" where
  "go_back a =
     (let nav = navigation a in
      if history nav = [] then a
      else
        (let (folder_id, folder_name) = last (history nav);
             nav1 = nav\<lparr>history := butlast (history nav)\<rparr>;
             nav2 = nav1\<lparr>current_folder_id := folder_id, current_folder_name := folder_name\<rparr>
         in refresh_files (a\<lparr>navigation := nav2\<rparr>)))"

definition go_home :: "app \<Rightarrow> app" where
  "go_home a =
     (let nav = navigation a;
          nav1 = nav\<lparr>history := []\<rparr>;
          nav2 = nav1\<lparr>current_folder_id := ''root'', current_folder_name := ''Root''\<rparr>
      in refresh_files (a\<lparr>navigation := nav2\<rparr>))"

section \<open>What a worker thread does, as a trace\<close>

text \<open>
  The worker threads of \<open>main_window.py\<close> act on the world only through the drive manager,
  the progress dialog and the message boxes. A run of a thread is modelled by the list of
  these actions in the order in which the thread performs them.
\<close>

text \<open>The calls of \<open>GoogleDriveManager\<close> methods, with their arguments.\<close>

datatype request =
    UploadFile string string        \<comment> \<open>\<open>upload_file(file_path, parent_id)\<close>\<close>
  | DownloadFile string string      \<comment> \<open>\<open>download_file(file_id, save_path)\<close>\<close>
  | DeleteFile string               \<comment> \<open>\<open>delete_file(file_id)\<close>\<close>
  | CreateFolder string string      \<comment> \<open>\<open>create_folder(folder_name, parent_id)\<close>\<close>

text \<open>
  The status texts are f-strings; a text is kept as the data it is formatted from.
  \<open>Uploading name j n\<close> is \<open>f"Uploading: {name} ({j}/{n})"\<close>, and likewise for
  downloads and deletions; the last three are the texts of the folder upload. A relative
  path is kept as the list of its components.
\<close>

datatype label =
    Uploading string nat nat
  | Downloading string nat nat
  | Deleting string nat nat
  | UploadingFolder string
  | CreatingFolder "string list"
  | UploadingPath "string list"

text \<open>The completion messages shown by \<open>messagebox.showinfo\<close>.\<close>

datatype summary =
    UploadComplete nat
  | DownloadComplete nat string
  | DeleteComplete nat
  | FolderUploadComplete string

datatype event =
    UpdateStatus label "real option"   \<comment> \<open>\<open>progress_dialog.update_status(status, progress)\<close>\<close>
  | Call request                       \<comment> \<open>a method of the drive manager is invoked\<close>
  | ShowInfo summary                   \<comment> \<open>\<open>messagebox.showinfo\<close>\<close>
  | ShowError string string            \<comment> \<open>\<open>messagebox.showerror(title, ...str(e))\<close>\<close>
  | LogError string string             \<comment> \<open>\<open>logger.error(f"... failed: {e}")\<close>: head and \<open>str(e)\<close>\<close>
  | CallbackRaises error               \<comment> \<open>a callback queued with \<open>root.after\<close> raises\<close>
  | RefreshFiles                       \<comment> \<open>\<open>self._refresh_files\<close> is scheduled\<close>
  | CloseDialog                        \<comment> \<open>\<open>progress_dialog.close\<close> is scheduled\<close>

fun requests :: "event list \<Rightarrow> request list" where
  "requests [] = []"
| "requests (Call r # es) = r # requests es"
| "requests (e # es) = requests es"

fun status_updates :: "event list \<Rightarrow> event list" where
  "status_updates [] = []"
| "status_updates (UpdateStatus l p # es) = UpdateStatus l p # status_updates es"
| "status_updates (e # es) = status_updates es"

fun progress_reports :: "event list \<Rightarrow> real list" where
  "progress_reports [] = []"
| "progress_reports (UpdateStatus l (Some p) # es) = p # progress_reports es"
| "progress_reports (e # es) = progress_reports es"

fun summaries :: "event list \<Rightarrow> summary list" where
  "summaries [] = []"
| "summaries (ShowInfo s # es) = s # summaries es"
| "summaries (e # es) = summaries es"

fun shown_errors :: "event list \<Rightarrow> string list" where
  "shown_errors [] = []"
| "shown_errors (ShowError t m # es) = m # shown_errors es"
| "shown_errors (e # es) = shown_errors es"

fun logged_errors :: "event list \<Rightarrow> string list" where
  "logged_errors [] = []"
| "logged_errors (LogError h m # es) = m # logged_errors es"
| "logged_errors (e # es) = logged_errors es"

text \<open>
  What a thread cannot control is collected in an environment:
  \<^item> \<open>cancel_at\<close>: \<open>ProgressDialog.cancelled\<close> starts as \<open>False\<close>, \<open>cancel()\<close> sets it to
    \<open>True\<close> and nothing resets it. \<open>Some k\<close> says that the user cancels when \<open>k\<close> calls of
    the drive manager have returned (and before the next one starts), \<open>None\<close> that the
    user never cancels.
  \<^item> \<open>answer n\<close>: the outcome of the \<open>n\<close>-th call of the drive manager (counted from 0):
    the exception it raises (a missing local file, a failure of the remote service), or
    the id it returns.
  \<^item> \<open>auto_refresh\<close>: the value of the configuration key of that name.
  \<^item> \<open>box_in_time\<close>: the handlers \<open>except Exception as e\<close> queue, with \<open>root.after\<close>, a
    lambda that reads \<open>e\<close> when the main loop runs it. Python unbinds \<open>e\<close> at the end of
    the except clause, so the lambda shows the error box only if the main loop runs it
    before the worker thread has left the clause (\<open>True\<close>); otherwise it raises
    \<open>NameError\<close> in the main loop and no box is shown (\<open>False\<close>).

  \<open>cancel()\<close> also calls \<open>update_status("Cancelling operation...")\<close>, on the thread of
  the user interface, with a text and no progress: it leaves the value of the progress
  bar as it is and is not an action of the worker thread.
\<close>

record env =
  cancel_at :: "nat option"
  answer :: "nat \<Rightarrow> error + string"
  auto_refresh :: bool
  box_in_time :: bool

definition is_cancelled :: "env \<Rightarrow> event list \<Rightarrow> bool" where
  "is_cancelled env tr =
     (case cancel_at env of None \<Rightarrow> False | Some k \<Rightarrow> k \<le> length (requests tr))"

text \<open>
  A call of a drive manager method: the call is recorded, and its outcome is the
  environment's answer. Every method of \<open>GoogleDriveManager\<close> logs and re-raises the
  exceptions of its body.
\<close>

definition drive_call :: "env \<Rightarrow> request \<Rightarrow> event list \<Rightarrow> (error + string) \<times> event list" where
  "drive_call env r tr = (answer env (length (requests tr)), tr @ [Call r])"

text \<open>A finite table of answers, for concrete runs: calls beyond the table succeed.\<close>

definition answers_of :: "(error + string) list \<Rightarrow> nat \<Rightarrow> error + string" where
  "answers_of xs n = (if n < length xs then xs ! n else Inr ''id'')"

text \<open>
  The environment of a concrete run: the answers, and when the user cancels. The
  listing is refreshed automatically, and the lambda of an error handler runs after the
  handler has been left.
\<close>

definition example_env :: "(error + string) list \<Rightarrow> nat option \<Rightarrow> env" where
  "example_env xs c =
     \<lparr>cancel_at = c, answer = answers_of xs, auto_refresh = True, box_in_time = False\<rparr>"

subsection \<open>Paths\<close>

text \<open>\<open>os.path.basename\<close> and \<open>os.path.join\<close> of two arguments, for POSIX paths.\<close>

definition basename :: "string \<Rightarrow> string" where
  "basename p = rev (takeWhile (\<lambda>c. c \<noteq> CHR ''/'') (rev p))"

definition path_join :: "string \<Rightarrow> string \<Rightarrow> string" where
  "path_join a b =
     (if b \<noteq> [] \<and> hd b = CHR ''/'' then b
      else if a = [] \<or> last a = CHR ''/'' then a @ b
      else a @ ''/'' @ b)"

section \<open>Batch operations (gui/main\_window.py)\<close>

text \<open>
  The threads \<open>upload_thread\<close>, \<open>download_thread\<close> and \<open>delete_thread\<close> share one
  shape: a \<open>for i, item in enumerate(items)\<close> loop inside \<open>try\<close>, a completion message,
  an \<open>except Exception as e\<close> that logs the exception and queues an error box, and a
  \<open>finally\<close> that closes the dialog.
  They differ in what is done before the drive manager is called for an item:
  \<^item> \<open>Missing e\<close>: \<open>self.tree.item(item, 'values')\<close> raises (the row is gone);
  \<^item> \<open>Short\<close>: the test \<open>len(values) > 6\<close> fails and the body does nothing;
  \<^item> \<open>Ready name r\<close>: the status is updated with \<open>name\<close> and the call \<open>r\<close> is made.
\<close>

datatype prepared = Missing error | Short | Ready string request

text \<open>
  The loop. \<open>i\<close> is the index of \<open>enumerate\<close>, \<open>cnt\<close> the counter
  (\<open>uploaded_count\<close>, \<open>downloaded_count\<close>, \<open>deleted_count\<close>), \<open>tr\<close> the trace so far.
  The first test is \<open>if progress_dialog.cancelled: break\<close>. An exception leaves the loop:
  the result is \<open>Inl\<close> of it. The progress is \<open>(i / total) * 100\<close>, a float that is
  idealised as the exact quotient in \<open>real\<close>.
\<close>

fun batch_loop ::
  "env \<Rightarrow> ('a \<Rightarrow> prepared) \<Rightarrow> (string \<Rightarrow> nat \<Rightarrow> nat \<Rightarrow> label) \<Rightarrow> nat \<Rightarrow>
   nat \<Rightarrow> 'a list \<Rightarrow> nat \<Rightarrow> event list \<Rightarrow> (error + nat) \<times> event list" where
  "batch_loop env prep lab n i [] cnt tr = (Inr cnt, tr)"
| "batch_loop env prep lab n i (x # xs) cnt tr =
     (if is_cancelled env tr then (Inr cnt, tr)
      else
        (case prep x of
           Missing e \<Rightarrow> (Inl e, tr)
         | Short \<Rightarrow> batch_loop env prep lab n (Suc i) xs cnt tr
         | Ready name r \<Rightarrow>
             (let progress = (real i / real n) * 100;
                  tr1 = tr @ [UpdateStatus (lab name (i + 1) n) (Some progress)]
              in case drive_call env r tr1 of
                   (Inl e, tr2) \<Rightarrow> (Inl e, tr2)
                 | (Inr _, tr2) \<Rightarrow> batch_loop env prep lab n (Suc i) xs (Suc cnt) tr2)))"

text \<open>
  The handler \<open>except Exception as e\<close>: the exception is logged with \<open>logger.error\<close>
  while \<open>e\<close> is bound; what the queued lambda does depends on when the main loop
  runs it.
\<close>

definition handle_error :: "env \<Rightarrow> string \<Rightarrow> string \<Rightarrow> error \<Rightarrow> event list" where
  "handle_error env err_log err_title e =
     [LogError err_log (str_of_error e),
      if box_in_time env then ShowError err_title (str_of_error e)
      else CallbackRaises (NameError ''e'')]"

text \<open>
  The whole thread. \<open>refresh\<close> says whether the thread refreshes the listing after its
  completion message (the download thread does not); \<open>err_log\<close> and \<open>err_title\<close> are
  the head of the log message and the title of the error box.
\<close>

definition batch_thread ::
  "env \<Rightarrow> ('a \<Rightarrow> prepared) \<Rightarrow> (string \<Rightarrow> nat \<Rightarrow> nat \<Rightarrow> label) \<Rightarrow> (nat \<Rightarrow> summary) \<Rightarrow>
   bool \<Rightarrow> string \<Rightarrow> string \<Rightarrow> 'a list \<Rightarrow> event list" where
  "batch_thread env prep lab msg refresh err_log err_title items =
     (case batch_loop env prep lab (length items) 0 items 0 [] of
        (Inr cnt, tr) \<Rightarrow>
          (if \<not> is_cancelled env tr \<and> cnt > 0
           then tr @ [ShowInfo (msg cnt)] @
                  (if refresh \<and> auto_refresh env then [RefreshFiles] else [])
           else tr) @ [CloseDialog]
      | (Inl e, tr) \<Rightarrow> tr @ handle_error env err_log err_title e @ [CloseDialog])"

text \<open>\<open>_perform_file_upload\<close>: every path is uploaded into the current folder.\<close>

definition upload_item :: "string \<Rightarrow> string \<Rightarrow> prepared" where
  "upload_item current_folder file_path =
     Ready (basename file_path) (UploadFile file_path current_folder)"

definition perform_file_upload :: "env \<Rightarrow> string \<Rightarrow> string list \<Rightarrow> event list" where
  "perform_file_upload env current_folder file_paths =
     batch_thread env (upload_item current_folder) Uploading UploadComplete True
       ''Upload failed'' ''Upload Error'' file_paths"

text \<open>
  \<open>_perform_download\<close> and \<open>_perform_deletion\<close> work on rows of the tree view: \<open>tree\<close>
  maps a row to its tuple of values, of which column 4 is the file id and column 6 the
  title.
\<close>

definition download_item :: "(string \<rightharpoonup> string list) \<Rightarrow> string \<Rightarrow> string \<Rightarrow> prepared" where
  "download_item tree save_path item =
     (case tree item of
        None \<Rightarrow> Missing (TclError item)
      | Some vals \<Rightarrow>
          if length vals > 6
          then Ready (vals ! 6) (DownloadFile (vals ! 4) (path_join save_path (vals ! 6)))
          else Short)"

definition perform_download ::
  "env \<Rightarrow> (string \<rightharpoonup> string list) \<Rightarrow> string list \<Rightarrow> string \<Rightarrow> event list" where
  "perform_download env tree items save_path =
     batch_thread env (download_item tree save_path) Downloading
       (\<lambda>c. DownloadComplete c save_path) False ''Download failed'' ''Download Error'' items"

definition delete_item :: "(string \<rightharpoonup> string list) \<Rightarrow> string \<Rightarrow> prepared" where
  "delete_item tree item =
     (case tree item of
        None \<Rightarrow> Missing (TclError item)
      | Some vals \<Rightarrow>
          if length vals > 6 then Ready (vals ! 6) (DeleteFile (vals ! 4)) else Short)"

definition perform_deletion :: "env \<Rightarrow> (string \<rightharpoonup> string list) \<Rightarrow> string list \<Rightarrow> event list" where
  "perform_deletion env tree items =
     batch_thread env (delete_item tree) Deleting DeleteComplete True
       ''Deletion failed'' ''Delete Error'' items"

subsection \<open>Reference runs and side conditions of the batch properties\<close>

text \<open>
  \<open>steps prep lab n i xs\<close> is what the loop body performs on the items \<open>xs\<close>, starting at
  index \<open>i\<close>, when nothing stops the loop: for every item that is \<open>Ready\<close>, the status
  update followed by the call. It is used to state what a run has done.
\<close>

fun steps ::
  "('a \<Rightarrow> prepared) \<Rightarrow> (string \<Rightarrow> nat \<Rightarrow> nat \<Rightarrow> label) \<Rightarrow> nat \<Rightarrow> nat \<Rightarrow> 'a list \<Rightarrow> event list" where
  "steps prep lab n i [] = []"
| "steps prep lab n i (x # xs) =
     (case prep x of
        Ready name r \<Rightarrow> [UpdateStatus (lab name (i + 1) n) (Some ((real i / real n) * 100)), Call r]
      | _ \<Rightarrow> []) @ steps prep lab n (Suc i) xs"

definition is_ready :: "prepared \<Rightarrow> bool" where
  "is_ready p = (case p of Ready name r \<Rightarrow> True | _ \<Rightarrow> False)"

text \<open>The user has not cancelled while fewer than \<open>m\<close> calls have returned.\<close>

definition not_cancelled_before :: "env \<Rightarrow> nat \<Rightarrow> bool" where
  "not_cancelled_before env m = (case cancel_at env of None \<Rightarrow> True | Some k \<Rightarrow> m \<le> k)"

text \<open>
  A row as \<open>_populate_file_list\<close> inserts it has eight values; \<open>row_ok\<close> says that the
  row exists and passes the test \<open>len(values) > 6\<close>. The call made for such a row:
\<close>

definition row_ok :: "(string \<rightharpoonup> string list) \<Rightarrow> string \<Rightarrow> bool" where
  "row_ok tree item = (case tree item of None \<Rightarrow> False | Some vals \<Rightarrow> 6 < length vals)"

definition download_request :: "(string \<rightharpoonup> string list) \<Rightarrow> string \<Rightarrow> string \<Rightarrow> request" where
  "download_request tree save_path item =
     DownloadFile (the (tree item) ! 4) (path_join save_path (the (tree item) ! 6))"

definition delete_request :: "(string \<rightharpoonup> string list) \<Rightarrow> string \<Rightarrow> request" where
  "delete_request tree item = DeleteFile (the (tree item) ! 4)"

text \<open>Three rows of a tree view, for concrete runs.\<close>

definition example_rows :: "string \<rightharpoonup> string list" where
  "example_rows =
     [''I001'' \<mapsto> [''a.txt'', ''1 KB'', ''-'', ''Text File'', ''id-a'', ''False'', ''a.txt'', ''text/plain''],
      ''I002'' \<mapsto> [''b.txt'', ''2 KB'', ''-'', ''Text File'', ''id-b'', ''False'', ''b.txt'', ''text/plain''],
      ''I003'' \<mapsto> [''c.txt'', ''3 KB'', ''-'', ''Text File'', ''id-c'', ''False'', ''c.txt'', ''text/plain'']]"

section \<open>Recursive folder upload (core/gdrive\_manager.py, gui/main\_window.py)\<close>

text \<open>
  A local directory as \<open>os.walk\<close> sees it: its subdirectories, each with its name, in the
  order in which the directory is listed, and the names of its files.
\<close>

datatype dir_tree = Dir "(string \<times> dir_tree) list" "string list"

text \<open>
  \<open>os.walk(local_folder)\<close>, top-down: the triple of a directory comes before the triples
  of its subdirectories, which are walked one after the other. The first component is the
  path of the directory relative to \<open>local_folder\<close> (what \<open>os.path.relpath\<close> gives),
  kept as the list of its components; \<open>[]\<close> stands for \<open>'.'\<close>.
\<close>

fun walk :: "string list \<Rightarrow> dir_tree \<Rightarrow> (string list \<times> string list \<times> string list) list" where
  "walk rel (Dir ds fs) =
     (rel, map fst ds, fs) # concat (map (\<lambda>(d, t). walk (rel @ [d]) t) ds)"

text \<open>The path of a file or directory below \<open>local_folder\<close>, from its components.\<close>

definition local_path :: "string \<Rightarrow> string list \<Rightarrow> string" where
  "local_path local_folder comps = foldl path_join local_folder comps"

text \<open>
  \<open>create_folder\<close> and \<open>upload_file\<close> of the drive manager. The test of
  \<open>os.path.exists\<close> in \<open>upload_file\<close> is part of the environment's answer to the call.
\<close>

definition create_folder :: "env \<Rightarrow> string \<Rightarrow> string \<Rightarrow> event list \<Rightarrow> (error + string) \<times> event list" where
  "create_folder env folder_name parent tr = drive_call env (CreateFolder folder_name parent) tr"

definition upload_file :: "env \<Rightarrow> string \<Rightarrow> string \<Rightarrow> event list \<Rightarrow> (error + string) \<times> event list" where
  "upload_file env file_path parent tr = drive_call env (UploadFile file_path parent) tr"

text \<open>
  \<open>progress_callback\<close> is optional; \<open>_perform_folder_upload\<close> passes
  \<open>progress_dialog.update_status\<close>, which is then called with a text and no progress.
\<close>

definition notify :: "bool \<Rightarrow> label \<Rightarrow> event list \<Rightarrow> event list" where
  "notify progress_callback l tr = (if progress_callback then tr @ [UpdateStatus l None] else tr)"

text \<open>
  The inner loop \<open>for dir_name in dirs\<close>: one remote folder per subdirectory, under
  \<open>current_parent_id\<close>, recorded in \<open>folder_map\<close> under the relative path of the
  subdirectory.
\<close>

fun create_subdirs ::
  "env \<Rightarrow> bool \<Rightarrow> string list \<Rightarrow> string \<Rightarrow> string list \<Rightarrow> (string list \<rightharpoonup> string) \<Rightarrow>
   event list \<Rightarrow> (error + (string list \<rightharpoonup> string)) \<times> event list" where
  "create_subdirs env cb rel current_parent_id [] folder_map tr = (Inr folder_map, tr)"
| "create_subdirs env cb rel current_parent_id (dir_name # dirs) folder_map tr =
     (case create_folder env dir_name current_parent_id
             (notify cb (CreatingFolder (rel @ [dir_name])) tr) of
        (Inl e, tr1) \<Rightarrow> (Inl e, tr1)
      | (Inr subfolder_id, tr1) \<Rightarrow>
          create_subdirs env cb rel current_parent_id dirs
            (folder_map(rel @ [dir_name] \<mapsto> subfolder_id)) tr1)"

text \<open>The inner loop \<open>for file_name in files\<close>.\<close>

fun upload_files ::
  "env \<Rightarrow> bool \<Rightarrow> string \<Rightarrow> string list \<Rightarrow> string \<Rightarrow> string list \<Rightarrow>
   event list \<Rightarrow> (error + unit) \<times> event list" where
  "upload_files env cb local_folder rel current_parent_id [] tr = (Inr (), tr)"
| "upload_files env cb local_folder rel current_parent_id (file_name # files) tr =
     (case upload_file env (local_path local_folder (rel @ [file_name])) current_parent_id
             (notify cb (UploadingPath (rel @ [file_name])) tr) of
        (Inl e, tr1) \<Rightarrow> (Inl e, tr1)
      | (Inr _, tr1) \<Rightarrow> upload_files env cb local_folder rel current_parent_id files tr1)"

text \<open>
  The outer loop over the triples of \<open>os.walk\<close>. \<open>folder_map.get(rel_path, folder_id)\<close>
  falls back to the id of the main folder.
\<close>

fun walk_loop ::
  "env \<Rightarrow> bool \<Rightarrow> string \<Rightarrow> string \<Rightarrow> (string list \<times> string list \<times> string list) list \<Rightarrow>
   (string list \<rightharpoonup> string) \<Rightarrow> event list \<Rightarrow> (error + unit) \<times> event list" where
  "walk_loop env cb local_folder folder_id [] folder_map tr = (Inr (), tr)"
| "walk_loop env cb local_folder folder_id ((rel, dirs, files) # rest) folder_map tr =
     (let current_parent_id = (case folder_map rel of Some i \<Rightarrow> i | None \<Rightarrow> folder_id)
      in case create_subdirs env cb rel current_parent_id dirs folder_map tr of
           (Inl e, tr1) \<Rightarrow> (Inl e, tr1)
         | (Inr folder_map1, tr1) \<Rightarrow>
             (case upload_files env cb local_folder rel current_parent_id files tr1 of
                (Inl e, tr2) \<Rightarrow> (Inl e, tr2)
              | (Inr _, tr2) \<Rightarrow> walk_loop env cb local_folder folder_id rest folder_map1 tr2))"

text \<open>
  \<open>upload_folder_recursive\<close>. The local folder is given by its path and by what is found
  there: \<open>None\<close> when the path does not exist. The function has no parameter through
  which a cancellation could reach it, and reads none.
\<close>

definition upload_folder_recursive ::
  "env \<Rightarrow> bool \<Rightarrow> string \<Rightarrow> dir_tree option \<Rightarrow> string \<Rightarrow> event list \<Rightarrow>
   (error + string) \<times> event list" where
  "upload_folder_recursive env cb local_folder found parent tr =
     (case found of
        None \<Rightarrow> (Inl (FileNotFoundError (''Folder not found: '' @ local_folder)), tr)
      | Some t \<Rightarrow>
          (case create_folder env (basename local_folder) parent tr of
             (Inl e, tr1) \<Rightarrow> (Inl e, tr1)
           | (Inr folder_id, tr1) \<Rightarrow>
               (case walk_loop env cb local_folder folder_id (walk [] t)
                       [[] \<mapsto> folder_id] tr1 of
                  (Inl e, tr2) \<Rightarrow> (Inl e, tr2)
                | (Inr _, tr2) \<Rightarrow> (Inr folder_id, tr2))))"

text \<open>
  \<open>_perform_folder_upload\<close>: the thread reads \<open>progress_dialog.cancelled\<close> once, after the
  traversal has returned.
\<close>

definition perform_folder_upload :: "env \<Rightarrow> string \<Rightarrow> dir_tree option \<Rightarrow> string \<Rightarrow> event list" where
  "perform_folder_upload env folder_path found current_folder =
     (case upload_folder_recursive env True folder_path found current_folder
             [UpdateStatus (UploadingFolder (basename folder_path)) None] of
        (Inr _, tr) \<Rightarrow>
          (if \<not> is_cancelled env tr
           then tr @ [ShowInfo (FolderUploadComplete (basename folder_path))] @
                  (if auto_refresh env then [RefreshFiles] else [])
           else tr) @ [CloseDialog]
      | (Inl e, tr) \<Rightarrow>
          tr @ handle_error env ''Folder upload failed'' ''Upload Error'' e @ [CloseDialog])"

text \<open>The tree \<open>root/{a.txt, sub/{b.txt}}\<close>.\<close>

definition example_tree :: dir_tree where
  "example_tree = Dir [(''sub'', Dir [] [''b.txt''])] [''a.txt'']"

subsection \<open>Reference notions for the properties of the traversal\<close>

text \<open>The id that the environment answers to the \<open>n\<close>-th call, when that call succeeds.\<close>

definition the_id :: "env \<Rightarrow> nat \<Rightarrow> string" where
  "the_id env n = (case answer env n of Inr i \<Rightarrow> i | Inl e \<Rightarrow> [])"

text \<open>
  In a file system the subdirectories of one directory have different names.
\<close>

fun wf_tree :: "dir_tree \<Rightarrow> bool" where
  "wf_tree (Dir ds fs) \<longleftrightarrow> distinct (map fst ds) \<and> (\<forall>(d, t) \<in> set ds. wf_tree t)"

text \<open>
  The directories below the root of a tree, and its files: each as the pair of the
  relative path of the directory that directly contains it, and its name.
\<close>

fun subdirs :: "dir_tree \<Rightarrow> (string list \<times> string) list" where
  "subdirs (Dir ds fs) =
     map (\<lambda>(d, t). ([], d)) ds @
     concat (map (\<lambda>(d, t). map (\<lambda>(q, x). (d # q, x)) (subdirs t)) ds)"

fun files_in :: "dir_tree \<Rightarrow> (string list \<times> string) list" where
  "files_in (Dir ds fs) =
     map (\<lambda>f. ([], f)) fs @
     concat (map (\<lambda>(d, t). map (\<lambda>(q, x). (d # q, x)) (files_in t)) ds)"

text \<open>
  The calls of a pre-order upload that hands the id of each remote folder down to the
  directory it was created for. \<open>tree_requests idf L rel pid n t\<close> are the calls for the
  content of the directory \<open>t\<close> at relative path \<open>rel\<close>, whose remote folder is \<open>pid\<close>,
  when \<open>n\<close> calls have been made before: first a folder under \<open>pid\<close> for each
  subdirectory, then the files of \<open>t\<close> under \<open>pid\<close>, then the content of each
  subdirectory under the id \<open>idf k\<close> that call \<open>k\<close>, which created its folder, returned.
\<close>

fun tree_requests ::
    "(nat \<Rightarrow> string) \<Rightarrow> string \<Rightarrow> string list \<Rightarrow> string \<Rightarrow> nat \<Rightarrow> dir_tree \<Rightarrow> request list"
  and children_requests ::
    "(nat \<Rightarrow> string) \<Rightarrow> string \<Rightarrow> string list \<Rightarrow> nat \<Rightarrow> nat \<Rightarrow> (string \<times> dir_tree) list \<Rightarrow> request list"
  where
  "tree_requests idf L rel pid n (Dir ds fs) =
     map (\<lambda>d. CreateFolder d pid) (map fst ds) @
     map (\<lambda>f. UploadFile (local_path L (rel @ [f])) pid) fs @
     children_requests idf L rel n (n + length ds + length fs) ds"
| "children_requests idf L rel k n [] = []"
| "children_requests idf L rel k n ((d, t) # ds) =
     tree_requests idf L (rel @ [d]) (idf k) n t @
     children_requests idf L rel (Suc k) (n + length (tree_requests idf L (rel @ [d]) (idf k) n t)) ds"

text \<open>
  \<open>placed R n i r\<close>: the call \<open>r\<close> is the \<open>i\<close>-th call overall, within a block \<open>R\<close> of calls
  that starts when \<open>n\<close> calls have been made.
\<close>

definition placed :: "request list \<Rightarrow> nat \<Rightarrow> nat \<Rightarrow> request \<Rightarrow> bool" where
  "placed R n i r \<longleftrightarrow> n \<le> i \<and> i < n + length R \<and> R ! (i - n) = r"

text \<open>
  \<open>mirrors idf L rel t c R n\<close>: within the block \<open>R\<close> of calls, \<open>c\<close> gives for every
  directory below \<open>t\<close> the position of a call that creates a folder of its name under
  the folder that the call at the position of its parent directory returned, later than
  that call; and every file of \<open>t\<close> is uploaded, later than the call at the position of
  its directory, under the folder which that call returned. \<open>c []\<close> is the position of
  the call for \<open>t\<close> itself.
\<close>

definition mirrors ::
  "(nat \<Rightarrow> string) \<Rightarrow> string \<Rightarrow> string list \<Rightarrow> dir_tree \<Rightarrow> (string list \<Rightarrow> nat) \<Rightarrow>
   request list \<Rightarrow> nat \<Rightarrow> bool" where
  "mirrors idf L rel t c R n \<longleftrightarrow>
     (\<forall>(q, d) \<in> set (subdirs t).
        c q < c (q @ [d]) \<and> placed R n (c (q @ [d])) (CreateFolder d (idf (c q)))) \<and>
     (\<forall>(q, f) \<in> set (files_in t).
        \<exists>u. c q < u \<and> placed R n u (UploadFile (local_path L (rel @ q @ [f])) (idf (c q))))"

section \<open>Listing a folder (core/gdrive\_manager.py)\<close>

text \<open>
  An entry of the list that \<open>ListFile(...).GetList()\<close> returns is a dictionary; the keys
  that \<open>list_files\<close> reads hold strings. \<open>f['id']\<close> and \<open>f['title']\<close> raise \<open>KeyError\<close> on
  a missing key, \<open>f.get(key, default)\<close> does not.

  Two built-ins of Python are parameters of the model: \<open>int_of\<close> is \<open>int()\<close> on a string
  (\<open>None\<close> when it raises \<open>ValueError\<close>), \<open>lower\<close> is \<open>str.lower\<close>. What is proved holds
  for every choice of them.
\<close>

type_synonym drive_file = "string \<rightharpoonup> string"

definition get_or :: "drive_file \<Rightarrow> string \<Rightarrow> string \<Rightarrow> string" where
  "get_or f k d = (case f k of None \<Rightarrow> d | Some v \<Rightarrow> v)"

text \<open>\<open>int(f.get('fileSize', 0))\<close>\<close>

definition file_size :: "(string \<Rightarrow> int option) \<Rightarrow> drive_file \<Rightarrow> error + int" where
  "file_size int_of f =
     (case f ''fileSize'' of
        None \<Rightarrow> Inr 0
      | Some s \<Rightarrow> (case int_of s of None \<Rightarrow> Inl (ValueError s) | Some n \<Rightarrow> Inr n))"

text \<open>
  The expression \<open>FileItem(id=f['id'], title=f['title'], size=..., ...)\<close>: the arguments
  are evaluated from left to right, then the item is constructed.
\<close>

definition file_item_of :: "(string \<Rightarrow> int option) \<Rightarrow> string \<Rightarrow> drive_file \<Rightarrow> error + file_item" where
  "file_item_of int_of parent f =
     (case f ''id'' of
        None \<Rightarrow> Inl (KeyError ''id'')
      | Some i \<Rightarrow>
          (case f ''title'' of
             None \<Rightarrow> Inl (KeyError ''title'')
           | Some t \<Rightarrow>
               (case file_size int_of f of
                  Inl e \<Rightarrow> Inl e
                | Inr s \<Rightarrow>
                    FileItem i t s (get_or f ''modifiedDate'' []) (get_or f ''mimeType'' [])
                      (f ''mimeType'' = Some ''application/vnd.google-apps.folder'') parent)))"

text \<open>
  The loop \<open>for f in file_list\<close>: a \<open>ValueError\<close> is caught, logged and the entry is
  skipped; any other exception leaves the loop and, re-raised by the outer handler, the
  function.
\<close>

fun collect ::
  "(string \<Rightarrow> int option) \<Rightarrow> string \<Rightarrow> drive_file list \<Rightarrow> file_item list \<Rightarrow> error + file_item list" where
  "collect int_of parent [] items = Inr items"
| "collect int_of parent (f # fs) items =
     (case file_item_of int_of parent f of
        Inr item \<Rightarrow> collect int_of parent fs (items @ [item])
      | Inl (ValueError m) \<Rightarrow> collect int_of parent fs items
      | Inl e \<Rightarrow> Inl e)"

text \<open>
  The key of \<open>items.sort(key=lambda x: (not x.is_folder, x.title.lower()))\<close>. Tuples
  compare lexicographically, \<open>False < True\<close>, and strings compare character by
  character. \<open>list.sort\<close> is stable, and so is \<open>sort_key\<close>.
\<close>

definition listing_key :: "(string \<Rightarrow> string) \<Rightarrow> file_item \<Rightarrow> bool \<times> string" where
  "listing_key lower x = (\<not> is_folder x, lower (title x))"

text \<open>\<open>ListFile\<close> is the remote query: what it answers for the folder id.\<close>

definition list_files ::
  "(string \<Rightarrow> int option) \<Rightarrow> (string \<Rightarrow> string) \<Rightarrow> (string \<Rightarrow> error + drive_file list) \<Rightarrow>
   string \<Rightarrow> error + file_item list" where
  "list_files int_of lower ListFile parent =
     (case ListFile parent of
        Inl e \<Rightarrow> Inl e
      | Inr file_list \<Rightarrow>
          (case collect int_of parent file_list [] of
             Inl e \<Rightarrow> Inl e
           | Inr items \<Rightarrow> Inr (sort_key (listing_key lower) items)))"

text \<open>
  What a listing is to hold, written from the entries alone. An entry is listed when
  its id and its title are present and non-empty and its \<open>fileSize\<close>, when present, is a
  number.
\<close>

definition entry_listed :: "(string \<Rightarrow> int option) \<Rightarrow> drive_file \<Rightarrow> bool" where
  "entry_listed int_of f \<longleftrightarrow>
     f ''id'' \<noteq> None \<and> f ''id'' \<noteq> Some [] \<and> f ''title'' \<noteq> None \<and> f ''title'' \<noteq> Some [] \<and>
     (case f ''fileSize'' of None \<Rightarrow> True | Some s \<Rightarrow> int_of s \<noteq> None)"

text \<open>
  The item of a listed entry: id, title, modification date and mime type are those of
  the entry (empty when the entry has none), the size is the number in \<open>fileSize\<close> (0
  when the entry has none), the item is a folder exactly when the mime type of the entry
  is that of a Drive folder, and its parent is the folder listed.
\<close>

definition entry_item :: "(string \<Rightarrow> int option) \<Rightarrow> string \<Rightarrow> drive_file \<Rightarrow> file_item" where
  "entry_item int_of parent f =
     \<lparr>item_id = the (f ''id''), title = the (f ''title''),
      item_size = (case f ''fileSize'' of None \<Rightarrow> 0 | Some s \<Rightarrow> the (int_of s)),
      modified_date = (case f ''modifiedDate'' of None \<Rightarrow> [] | Some d \<Rightarrow> d),
      mime_type = (case f ''mimeType'' of None \<Rightarrow> [] | Some m \<Rightarrow> m),
      is_folder = (f ''mimeType'' = Some ''application/vnd.google-apps.folder''),
      parent_id = parent\<rparr>"

text \<open>
  For concrete runs: \<open>str.lower\<close> on ASCII letters, \<open>int()\<close> on a string of characters
  below 256, and a remote service that answers every query with the same five entries.
\<close>

definition lower_char :: "char \<Rightarrow> char" where
  "lower_char c =
     (if CHR ''A'' \<le> c \<and> c \<le> CHR ''Z'' then char_of (of_char c + (32::nat)) else c)"

definition ascii_lower :: "string \<Rightarrow> string" where
  "ascii_lower s = map lower_char s"

text \<open>
  \<open>int(s)\<close> for a string \<open>s\<close>: white space around the number is dropped; a sign may come
  first; then come decimal digits, where a single underscore may stand between two
  digits; a number of more than 4300 digits is refused (the default limit of
  \<open>sys.set_int_max_str_digits\<close>). Everything else raises \<open>ValueError\<close>, here \<open>None\<close>.
\<close>

definition is_space :: "char \<Rightarrow> bool" where
  "is_space c =
     (let n = of_char c :: int
      in (9 \<le> n \<and> n \<le> 13) \<or> (28 \<le> n \<and> n \<le> 32) \<or> n = 133 \<or> n = 160)"

definition strip :: "string \<Rightarrow> string" where
  "strip s = rev (dropWhile is_space (rev (dropWhile is_space s)))"

definition is_digit :: "char \<Rightarrow> bool" where
  "is_digit c \<longleftrightarrow> CHR ''0'' \<le> c \<and> c \<le> CHR ''9''"

definition digit_of :: "char \<Rightarrow> int" where
  "digit_of c = of_char c - 48"

text \<open>
  The digits of the body of a literal, without its underscores; \<open>d\<close> tells whether the
  character before was a digit.
\<close>

fun digits :: "bool \<Rightarrow> string \<Rightarrow> string option" where
  "digits d [] = (if d then Some [] else None)"
| "digits d (c # cs) =
     (if is_digit c then map_option (Cons c) (digits True cs)
      else if c = CHR ''_'' \<and> d then digits False cs
      else None)"

definition py_int :: "string \<Rightarrow> int option" where
  "py_int s =
     (let t = strip s;
          negative = (t \<noteq> [] \<and> hd t = CHR ''-'');
          body = (if t \<noteq> [] \<and> (hd t = CHR ''-'' \<or> hd t = CHR ''+'') then tl t else t)
      in case digits False body of
           None \<Rightarrow> None
         | Some ds \<Rightarrow>
             if int (length ds) > 4300 then None
             else Some ((if negative then - 1 else 1) * foldl (\<lambda>n c. 10 * n + digit_of c) 0 ds))"

definition example_entries :: "drive_file list" where
  "example_entries =
     [[''id'' \<mapsto> ''1'', ''title'' \<mapsto> ''Beta.txt'', ''fileSize'' \<mapsto> ''12'', ''mimeType'' \<mapsto> ''text/plain''],
      [''id'' \<mapsto> ''2'', ''title'' \<mapsto> [], ''mimeType'' \<mapsto> ''text/plain''],
      [''id'' \<mapsto> ''3'', ''title'' \<mapsto> ''alpha.txt'', ''fileSize'' \<mapsto> ''1_024'',
       ''modifiedDate'' \<mapsto> ''2024-05-01''],
      [''id'' \<mapsto> ''4'', ''title'' \<mapsto> ''zeta'', ''mimeType'' \<mapsto> ''application/vnd.google-apps.folder''],
      [''id'' \<mapsto> ''5'', ''title'' \<mapsto> ''Gamma.bin'', ''fileSize'' \<mapsto> ''1.5k'']]"

definition example_listing :: "string \<Rightarrow> error + drive_file list" where
  "example_listing parent = Inr example_entries"

section \<open>Properties of the data models and of navigation\<close>

text \<open>
  Claim C7. For every application state, \<open>_navigate_to_folder(X, name)\<close> followed by
  \<open>_go_back()\<close> leaves the navigation state as it was before the two calls: the current
  folder id, the current folder name and the history stack are the old ones (so the
  history is empty again if it was empty).
\<close>

theorem navigate_then_back_restores:
  "navigation (go_back (navigate_to_folder a x xname)) = navigation a \<and>
   current_folder_id (navigation (go_back (navigate_to_folder a x xname))) =
     current_folder_id (navigation a) \<and>
   current_folder_name (navigation (go_back (navigate_to_folder a x xname))) =
     current_folder_name (navigation a) \<and>
   history (navigation (go_back (navigate_to_folder a x xname))) = history (navigation a)"
  by (simp add: go_back_def navigate_to_folder_def refresh_files_def Let_def)

text \<open>
  Claim C9. With an empty history \<open>_go_back()\<close> changes nothing (the state of the
  application stays as it is, and no refresh is started). Otherwise it removes exactly the
  top pair of the history and makes it the current folder id and name: the old history is
  the new one with the new current pair on top.
\<close>

theorem go_back_noop_or_pop:
  "(history (navigation a) = [] \<longrightarrow> go_back a = a) \<and>
   (history (navigation a) \<noteq> [] \<longrightarrow>
      navigation (go_back a) =
        \<lparr>current_folder_id = fst (last (history (navigation a))),
         current_folder_name = snd (last (history (navigation a))),
         history = butlast (history (navigation a))\<rparr> \<and>
      history (navigation a) =
        history (navigation (go_back a)) @
          [(current_folder_id (navigation (go_back a)), current_folder_name (navigation (go_back a)))])"
  by (simp add: go_back_def refresh_files_def Let_def split_beta)

text \<open>Going back at the root, and going back from a folder opened from the root.\<close>

theorem go_back_witness:
  "history (navigation \<lparr>navigation = NavigationState ''root'' ''Root'' None, refreshes = []\<rparr>) = [] \<and>
   go_back \<lparr>navigation = NavigationState ''root'' ''Root'' None, refreshes = []\<rparr> =
     \<lparr>navigation = NavigationState ''root'' ''Root'' None, refreshes = []\<rparr> \<and>
   history (navigation \<lparr>navigation = NavigationState ''f1'' ''Docs'' (Some [(''root'', ''Root'')]), refreshes = []\<rparr>) \<noteq> [] \<and>
   navigation (go_back \<lparr>navigation = NavigationState ''f1'' ''Docs'' (Some [(''root'', ''Root'')]), refreshes = []\<rparr>) =
     NavigationState ''root'' ''Root'' None"
  using go_back_noop_or_pop [of "\<lparr>navigation = NavigationState ''root'' ''Root'' None, refreshes = []\<rparr>"]
        go_back_noop_or_pop [of "\<lparr>navigation = NavigationState ''f1'' ''Docs'' (Some [(''root'', ''Root'')]), refreshes = []\<rparr>"]
  by (simp add: NavigationState_def)

text \<open>
  Claim C8. Constructing a \<open>FileItem\<close> with an empty id or an empty title raises
  \<open>ValueError\<close>; the constructor is a pure function and makes no remote call. With both
  non-empty the construction succeeds, whatever the other five fields are.
\<close>

theorem FileItem_validation:
  "(i = [] \<or> t = [] \<longrightarrow> (\<exists>m. FileItem i t s md mt isf p = Inl (ValueError m))) \<and>
   (i \<noteq> [] \<and> t \<noteq> [] \<longrightarrow>
      FileItem i t s md mt isf p =
        Inr \<lparr>item_id = i, title = t, item_size = s, modified_date = md,
             mime_type = mt, is_folder = isf, parent_id = p\<rparr>)"
  by (simp add: FileItem_def)

text \<open>An empty id, an empty title, and a valid item whose other string fields are empty.\<close>

theorem FileItem_validation_witness:
  "(\<exists>m. FileItem [] ''a.txt'' 3 [] ''text/plain'' False ''root'' = Inl (ValueError m)) \<and>
   (\<exists>m. FileItem ''id1'' [] 3 [] ''text/plain'' False ''root'' = Inl (ValueError m)) \<and>
   FileItem ''id1'' ''a.txt'' 0 [] [] False [] =
     Inr \<lparr>item_id = ''id1'', title = ''a.txt'', item_size = 0, modified_date = [],
          mime_type = [], is_folder = False, parent_id = []\<rparr>"
  using FileItem_validation [of "[]" "''a.txt''" 3 "[]" "''text/plain''" False "''root''"]
        FileItem_validation [of "''id1''" "[]" 3 "[]" "''text/plain''" False "''root''"]
        FileItem_validation [of "''id1''" "''a.txt''" 0 "[]" "[]" False "[]"]
  by simp

lemma tracker_step_total: "total_items (tracker_step t c) = total_items t"
  by (cases c) (simp_all add: update_def add_error_def)

lemma foldl_tracker_total: "total_items (foldl tracker_step t calls) = total_items t"
  by (induction calls arbitrary: t) (simp_all add: tracker_step_total)

lemma tracker_step_bound:
  "within_total n c \<Longrightarrow> completed_items t \<le> n \<Longrightarrow> completed_items (tracker_step t c) \<le> n"
  by (cases c) (simp_all add: update_def add_error_def)

lemma foldl_tracker_bound:
  "\<forall>c \<in> set calls. within_total n c \<Longrightarrow> completed_items t \<le> n \<Longrightarrow>
   completed_items (foldl tracker_step t calls) \<le> n"
  by (induction calls arbitrary: t) (simp_all add: tracker_step_bound)

text \<open>
  Claim C3, as stated, fails: \<open>update\<close> stores the value it is given and does not compare
  it with \<open>total_items\<close>. After \<open>ProgressTracker(3)\<close> and \<open>update(5, "a.txt")\<close> the tracker
  has 5 completed items of 3.
\<close>

theorem update_exceeds_total:
  "completed_items (tracker_run 0 3 [Update 5 ''a.txt'']) >
   total_items (tracker_run 0 3 [Update 5 ''a.txt''])"
  by (simp add: tracker_run_def ProgressTracker_def update_def)

text \<open>
  Claim C3, amended. If \<open>total_items\<close> is not negative and every \<open>update\<close> is given a
  value of at most \<open>total_items\<close>, then in every state reached from the constructor by
  \<open>update\<close> and \<open>add_error\<close> the completed items do not exceed the total, and the
  percentage is \<open>completed_items / total_items * 100\<close> when the total is positive and \<open>0\<close>
  otherwise. The property \<open>percentage\<close> of \<open>UploadProgress\<close> is the same function of
  \<open>completed\<close> and \<open>total\<close>.
\<close>

theorem tracker_bound_when_updates_bounded:
  assumes "0 \<le> n" and "\<forall>c \<in> set calls. within_total n c"
  shows "completed_items (tracker_run now n calls) \<le> total_items (tracker_run now n calls) \<and>
         tracker_percentage (tracker_run now n calls) =
           (if 0 < total_items (tracker_run now n calls)
            then real_of_int (completed_items (tracker_run now n calls)) /
                 real_of_int (total_items (tracker_run now n calls)) * 100
            else 0) \<and>
         percentage \<lparr>current_file = file, completed = c, total = n, status = st\<rparr> =
           (if 0 < n then real_of_int c / real_of_int n * 100 else 0)"
proof -
  let ?t = "tracker_run now n calls"
  have tot: "total_items ?t = n"
    by (simp add: tracker_run_def foldl_tracker_total ProgressTracker_def)
  have "completed_items (ProgressTracker now n) \<le> n"
    using assms(1) by (simp add: ProgressTracker_def)
  then have "completed_items ?t \<le> n"
    unfolding tracker_run_def using assms(2) by (rule foldl_tracker_bound[rotated])
  moreover have "tracker_percentage ?t =
      (if 0 < n then real_of_int (completed_items ?t) / real_of_int n * 100 else 0)"
    using assms(1) by (simp add: tracker_percentage_def tot)
  moreover have "percentage \<lparr>current_file = file, completed = c, total = n, status = st\<rparr> =
      (if 0 < n then real_of_int c / real_of_int n * 100 else 0)"
    using assms(1) by (simp add: percentage_def)
  ultimately show ?thesis by (simp add: tot)
qed

text \<open>A run of three calls on a tracker of four items: 3 of 4 are completed, 75 percent.\<close>

theorem tracker_bound_witness:
  "(0::int) \<le> 4 \<and> within_total 4 (Update 2 ''a'') \<and> within_total 4 (AddError ''boom'') \<and>
   within_total 4 (Update 3 ''b'') \<and>
   completed_items (tracker_run 0 4 [Update 2 ''a'', AddError ''boom'', Update 3 ''b'']) = 3 \<and>
   total_items (tracker_run 0 4 [Update 2 ''a'', AddError ''boom'', Update 3 ''b'']) = 4 \<and>
   tracker_percentage (tracker_run 0 4 [Update 2 ''a'', AddError ''boom'', Update 3 ''b'']) = 75 \<and>
   percentage \<lparr>current_file = ''b'', completed = 3, total = 4, status = ''Processing''\<rparr> = 75"
  using tracker_bound_when_updates_bounded [of 4 "[Update 2 ''a'', AddError ''boom'', Update 3 ''b'']" 0
      "''b''" 3 "''Processing''"]
  by (simp add: tracker_run_def ProgressTracker_def update_def add_error_def)

section \<open>Properties of the batch operations\<close>

subsection \<open>The loop\<close>

text \<open>The projections of a trace distribute over concatenation.\<close>

lemma requests_append [simp]: "requests (a @ b) = requests a @ requests b"
  by (induction a rule: requests.induct) simp_all

lemma status_updates_append [simp]: "status_updates (a @ b) = status_updates a @ status_updates b"
  by (induction a rule: status_updates.induct) simp_all

lemma progress_reports_append [simp]: "progress_reports (a @ b) = progress_reports a @ progress_reports b"
  by (induction a rule: progress_reports.induct) simp_all

lemma summaries_append [simp]: "summaries (a @ b) = summaries a @ summaries b"
  by (induction a rule: summaries.induct) simp_all

lemma shown_errors_append [simp]: "shown_errors (a @ b) = shown_errors a @ shown_errors b"
  by (induction a rule: shown_errors.induct) simp_all

lemma logged_errors_append [simp]: "logged_errors (a @ b) = logged_errors a @ logged_errors b"
  by (induction a rule: logged_errors.induct) simp_all

text \<open>The handler makes no call, reports no progress and shows no completion message.\<close>

lemma handle_error_projections [simp]:
  "requests (handle_error env lg ttl e) = []"
  "status_updates (handle_error env lg ttl e) = []"
  "progress_reports (handle_error env lg ttl e) = []"
  "summaries (handle_error env lg ttl e) = []"
  "logged_errors (handle_error env lg ttl e) = [str_of_error e]"
  by (simp_all add: handle_error_def)

text \<open>The error box appears only when the main loop runs the lambda in time.\<close>

lemma error_box_only_in_time:
  "shown_errors (handle_error env lg ttl e) = (if box_in_time env then [str_of_error e] else [])"
  by (simp add: handle_error_def)

lemma is_readyE: "is_ready p \<Longrightarrow> (\<And>name r. p = Ready name r \<Longrightarrow> P) \<Longrightarrow> P"
  by (cases p) (simp_all add: is_ready_def)

lemma not_isl_Inr: "\<not> isl a \<Longrightarrow> \<exists>b. a = Inr b"
  by (cases a) simp_all


lemma batch_loop_stop:
  assumes "xs = [] \<or> is_cancelled env tr"
  shows "batch_loop env prep lab n i xs cnt tr = (Inr cnt, tr)"
  using assms by (cases xs) simp_all

text \<open>
  Items that are ready, whose calls succeed, and before which the user has not cancelled,
  are processed in full: the loop performs their steps and goes on with the rest.
\<close>

lemma batch_loop_good_prefix:
  assumes "\<forall>x \<in> set ys. is_ready (prep x)"
      and "\<forall>j < length ys. \<not> isl (answer env (length (requests tr) + j))"
      and "not_cancelled_before env (length (requests tr) + length ys)"
  shows "batch_loop env prep lab n i (ys @ zs) cnt tr =
         batch_loop env prep lab n (i + length ys) zs (cnt + length ys)
           (tr @ steps prep lab n i ys)"
  using assms
proof (induction ys arbitrary: i cnt tr)
  case Nil
  show ?case by simp
next
  case (Cons y ys)
  from Cons.prems(1) obtain name r where y: "prep y = Ready name r"
    by (auto elim: is_readyE)
  from Cons.prems(2) have "\<not> isl (answer env (length (requests tr) + 0))"
    by (metis length_Cons zero_less_Suc)
  then obtain b where b: "answer env (length (requests tr)) = Inr b"
    using not_isl_Inr by fastforce
  have nc: "\<not> is_cancelled env tr"
    using Cons.prems(3)
    by (auto simp: not_cancelled_before_def is_cancelled_def split: option.splits)
  let ?tr = "tr @ [UpdateStatus (lab name (i + 1) n) (Some ((real i / real n) * 100)), Call r]"
  have len: "length (requests ?tr) = Suc (length (requests tr))" by simp
  have p1: "\<forall>x \<in> set ys. is_ready (prep x)" using Cons.prems(1) by simp
  have p2: "\<forall>j < length ys. \<not> isl (answer env (length (requests ?tr) + j))"
  proof (intro allI impI)
    fix j assume "j < length ys"
    then have "Suc j < length (y # ys)" by simp
    with Cons.prems(2) have "\<not> isl (answer env (length (requests tr) + Suc j))" by blast
    then show "\<not> isl (answer env (length (requests ?tr) + j))" by (simp add: len)
  qed
  have p3: "not_cancelled_before env (length (requests ?tr) + length ys)"
    using Cons.prems(3) by (simp add: len)
  have "batch_loop env prep lab n i ((y # ys) @ zs) cnt tr =
        batch_loop env prep lab n (Suc i) (ys @ zs) (Suc cnt) ?tr"
    using y nc b by (simp add: drive_call_def Let_def)
  also have "\<dots> = batch_loop env prep lab n (Suc i + length ys) zs (Suc cnt + length ys)
                     (?tr @ steps prep lab n (Suc i) ys)"
    by (rule Cons.IH [OF p1 p2 p3])
  finally show ?case by (simp add: y)
qed

lemma summaries_steps [simp]: "summaries (steps prep lab n i ys) = []"
  by (induction ys arbitrary: i) (auto split: prepared.splits)

lemma shown_errors_steps [simp]: "shown_errors (steps prep lab n i ys) = []"
  by (induction ys arbitrary: i) (auto split: prepared.splits)

lemma logged_errors_steps [simp]: "logged_errors (steps prep lab n i ys) = []"
  by (induction ys arbitrary: i) (auto split: prepared.splits)

text \<open>
  Whatever fails or is cancelled, what the loop adds to the trace is an initial part of
  the steps of its items.
\<close>

lemma batch_loop_prefix:
  "\<exists>m. snd (batch_loop env prep lab n i xs cnt tr) = tr @ take m (steps prep lab n i xs)"
proof (induction xs arbitrary: i cnt tr)
  case Nil
  show ?case by simp
next
  case (Cons x xs)
  show ?case
  proof (cases "is_cancelled env tr")
    case True
    then have "snd (batch_loop env prep lab n i (x # xs) cnt tr) = tr @ take 0 (steps prep lab n i (x # xs))"
      by simp
    then show ?thesis by blast
  next
    case nc: False
    show ?thesis
    proof (cases "prep x")
      case (Missing e)
      with nc have "snd (batch_loop env prep lab n i (x # xs) cnt tr) = tr @ take 0 (steps prep lab n i (x # xs))"
        by simp
      then show ?thesis by blast
    next
      case Short
      from Cons.IH [of "Suc i" cnt tr] obtain m where
        "snd (batch_loop env prep lab n (Suc i) xs cnt tr) = tr @ take m (steps prep lab n (Suc i) xs)"
        by blast
      with nc Short have "snd (batch_loop env prep lab n i (x # xs) cnt tr) = tr @ take m (steps prep lab n i (x # xs))"
        by simp
      then show ?thesis by blast
    next
      case (Ready name r)
      let ?s = "UpdateStatus (lab name (i + 1) n) (Some ((real i / real n) * 100))"
      show ?thesis
      proof (cases "answer env (length (requests tr))")
        case (Inl e)
        have "snd (batch_loop env prep lab n i (x # xs) cnt tr) = tr @ [?s, Call r]"
          using nc Ready Inl by (simp add: drive_call_def Let_def)
        also have "\<dots> = tr @ take 2 (steps prep lab n i (x # xs))"
          using Ready by simp
        finally show ?thesis by blast
      next
        case (Inr b)
        from Cons.IH [of "Suc i" "Suc cnt" "tr @ [?s, Call r]"] obtain m where m:
          "snd (batch_loop env prep lab n (Suc i) xs (Suc cnt) (tr @ [?s, Call r])) =
             (tr @ [?s, Call r]) @ take m (steps prep lab n (Suc i) xs)"
          by blast
        have "snd (batch_loop env prep lab n i (x # xs) cnt tr) =
              snd (batch_loop env prep lab n (Suc i) xs (Suc cnt) (tr @ [?s, Call r]))"
          using nc Ready Inr by (simp add: drive_call_def Let_def)
        also have "\<dots> = tr @ take (Suc (Suc m)) (steps prep lab n i (x # xs))"
          using Ready m by simp
        finally show ?thesis by blast
      qed
    qed
  qed
qed

text \<open>The status updates among the steps, and the progress they report.\<close>

lemma steps_status_form:
  "UpdateStatus l p \<in> set (steps prep lab n i xs) \<Longrightarrow>
   \<exists>j name r. j < length xs \<and> prep (xs ! j) = Ready name r \<and>
     l = lab name (i + j + 1) n \<and> p = Some ((real (i + j) / real n) * 100)"
proof (induction xs arbitrary: i)
  case Nil
  then show ?case by simp
next
  case (Cons x xs)
  show ?case
  proof (cases "UpdateStatus l p \<in> set (steps prep lab n (Suc i) xs)")
    case later: True
    from Cons.IH [OF later] obtain j name r where
      "j < length xs" "prep (xs ! j) = Ready name r" "l = lab name (Suc i + j + 1) n"
      "p = Some ((real (Suc i + j) / real n) * 100)"
      by blast
    then have "Suc j < length (x # xs) \<and> prep ((x # xs) ! Suc j) = Ready name r \<and>
       l = lab name (i + Suc j + 1) n \<and> p = Some ((real (i + Suc j) / real n) * 100)"
      by simp
    then show ?thesis by blast
  next
    case False
    with Cons.prems obtain name r where
      "prep x = Ready name r" "l = lab name (i + 1) n" "p = Some ((real i / real n) * 100)"
      by (cases "prep x") auto
    then have "0 < length (x # xs) \<and> prep ((x # xs) ! 0) = Ready name r \<and>
       l = lab name (i + 0 + 1) n \<and> p = Some ((real (i + 0) / real n) * 100)"
      by simp
    then show ?thesis by blast
  qed
qed

lemma progress_reports_mem:
  "p \<in> set (progress_reports tr) \<longleftrightarrow> (\<exists>l. UpdateStatus l (Some p) \<in> set tr)"
  by (induction tr rule: progress_reports.induct) auto

lemma status_updates_mem:
  "e \<in> set (status_updates tr) \<longleftrightarrow> e \<in> set tr \<and> (\<exists>l p. e = UpdateStatus l p)"
  by (induction tr rule: status_updates.induct) auto

lemma steps_progress_lower:
  assumes "p \<in> set (progress_reports (steps prep lab n i xs))"
  shows "\<exists>j. i \<le> j \<and> j < i + length xs \<and> p = (real j / real n) * 100"
proof -
  from assms obtain l where "UpdateStatus l (Some p) \<in> set (steps prep lab n i xs)"
    by (auto simp: progress_reports_mem)
  from steps_status_form [OF this] obtain j where
    "j < length xs" "p = (real (i + j) / real n) * 100" by auto
  then have "i \<le> i + j \<and> i + j < i + length xs \<and> p = (real (i + j) / real n) * 100" by simp
  then show ?thesis by blast
qed

lemma progress_mono: "i \<le> j \<Longrightarrow> (real i / real n) * 100 \<le> (real j / real n) * 100"
  by (simp add: divide_right_mono)

lemma steps_progress_sorted: "sorted (progress_reports (steps prep lab n i xs))"
proof (induction xs arbitrary: i)
  case Nil
  show ?case by simp
next
  case (Cons x xs)
  have later: "(real i / real n) * 100 \<le> p" if "p \<in> set (progress_reports (steps prep lab n (Suc i) xs))" for p
  proof -
    from steps_progress_lower [OF that] obtain j where "Suc i \<le> j" "p = (real j / real n) * 100"
      by blast
    then show ?thesis using progress_mono [of i j n] by simp
  qed
  show ?case
  proof (cases "prep x")
    case (Ready name r)
    then show ?thesis using Cons.IH [of "Suc i"] later by auto
  qed (use Cons.IH [of "Suc i"] in simp_all)
qed

lemma sorted_progress_take:
  assumes "sorted (progress_reports tr)"
  shows "sorted (progress_reports (take m tr))"
proof -
  have "progress_reports tr = progress_reports (take m tr) @ progress_reports (drop m tr)"
    by (metis append_take_drop_id progress_reports_append)
  with assms show ?thesis by (simp add: sorted_append)
qed

text \<open>From the loop to the thread.\<close>

lemma batch_thread_progress_prefix:
  "\<exists>m. status_updates (batch_thread env prep lab msg refresh lg ttl items) =
         status_updates (take m (steps prep lab (length items) 0 items)) \<and>
       progress_reports (batch_thread env prep lab msg refresh lg ttl items) =
         progress_reports (take m (steps prep lab (length items) 0 items))"
proof -
  obtain res tr where loop: "batch_loop env prep lab (length items) 0 items 0 [] = (res, tr)"
    by (cases "batch_loop env prep lab (length items) 0 items 0 []") blast
  from batch_loop_prefix [of env prep lab "length items" 0 items 0 "[]"] loop
  obtain m where tr: "tr = take m (steps prep lab (length items) 0 items)"
    by auto
  have "status_updates (batch_thread env prep lab msg refresh lg ttl items) = status_updates tr \<and>
        progress_reports (batch_thread env prep lab msg refresh lg ttl items) = progress_reports tr"
    by (cases res) (simp_all add: batch_thread_def loop)
  with tr show ?thesis by blast
qed

lemma batch_thread_progress:
  assumes T_def: "T = batch_thread env prep lab msg refresh lg ttl items"
  shows "(\<forall>e \<in> set (status_updates T). \<exists>i name r. i < length items \<and>
            prep (items ! i) = Ready name r \<and>
            e = UpdateStatus (lab name (i + 1) (length items))
                  (Some ((real i / real (length items)) * 100)))"
    and "sorted (progress_reports T)"
    and "\<forall>p \<in> set (progress_reports T). 0 \<le> p \<and> p \<le> 100"
proof -
  let ?S = "steps prep lab (length items) 0 items"
  obtain m where st: "status_updates T = status_updates (take m ?S)"
    and pr: "progress_reports T = progress_reports (take m ?S)"
    unfolding T_def using batch_thread_progress_prefix by blast
  show "\<forall>e \<in> set (status_updates T). \<exists>i name r. i < length items \<and>
            prep (items ! i) = Ready name r \<and>
            e = UpdateStatus (lab name (i + 1) (length items))
                  (Some ((real i / real (length items)) * 100))"
  proof
    fix e assume "e \<in> set (status_updates T)"
    then obtain l p where e: "e = UpdateStatus l p" and "e \<in> set (take m ?S)"
      by (auto simp: st status_updates_mem)
    then have "UpdateStatus l p \<in> set ?S" by (auto dest: in_set_takeD)
    from steps_status_form [OF this] e
    show "\<exists>i name r. i < length items \<and> prep (items ! i) = Ready name r \<and>
            e = UpdateStatus (lab name (i + 1) (length items))
                  (Some ((real i / real (length items)) * 100))"
      by auto
  qed
  show "sorted (progress_reports T)"
    by (simp add: pr sorted_progress_take steps_progress_sorted)
  show "\<forall>p \<in> set (progress_reports T). 0 \<le> p \<and> p \<le> 100"
  proof
    fix p assume "p \<in> set (progress_reports T)"
    then obtain l where "UpdateStatus l (Some p) \<in> set (take m ?S)"
      by (auto simp: pr progress_reports_mem)
    then have "p \<in> set (progress_reports ?S)"
      by (auto simp: progress_reports_mem dest: in_set_takeD)
    from steps_progress_lower [OF this] obtain j where
      j: "j < length items" "p = (real j / real (length items)) * 100" by auto
    then have "0 < real (length items)" and "real j \<le> real (length items)" by auto
    then have "real j / real (length items) * 100 \<le> 100" by (simp add: pos_divide_le_eq)
    with j show "0 \<le> p \<and> p \<le> 100" by simp
  qed
qed

lemma length_requests_steps:
  "\<forall>x \<in> set ys. is_ready (prep x) \<Longrightarrow> length (requests (steps prep lab n i ys)) = length ys"
  by (induction ys arbitrary: i) (auto elim!: is_readyE)


lemma batch_thread_cancelled:
  assumes "cancel_at env = Some k" and "k \<le> length items"
      and "\<forall>x \<in> set (take k items). is_ready (prep x)"
      and "\<forall>j < k. \<not> isl (answer env j)"
  shows "batch_thread env prep lab msg refresh lg ttl items =
         steps prep lab (length items) 0 (take k items) @ [CloseDialog]"
proof -
  let ?n = "length items"
  let ?tr = "steps prep lab ?n 0 (take k items)"
  have len: "min (length items) k = k" using assms(2) by simp
  have reqs: "length (requests ?tr) = k"
    using assms(2,3) by (simp add: length_requests_steps)
  have "batch_loop env prep lab ?n 0 (take k items @ drop k items) 0 [] =
        batch_loop env prep lab ?n (0 + length (take k items)) (drop k items)
          (0 + length (take k items)) ([] @ ?tr)"
    using assms by (intro batch_loop_good_prefix) (simp_all add: len not_cancelled_before_def)
  also have "\<dots> = batch_loop env prep lab ?n k (drop k items) k ?tr"
    by (simp add: len)
  also have "\<dots> = (Inr k, ?tr)"
    by (rule batch_loop_stop) (simp add: is_cancelled_def assms(1) reqs)
  finally have "batch_loop env prep lab ?n 0 items 0 [] = (Inr k, ?tr)" by simp
  moreover have "is_cancelled env ?tr" by (simp add: is_cancelled_def assms(1) reqs)
  ultimately show ?thesis by (simp add: batch_thread_def)
qed


subsection \<open>The three batch threads\<close>

lemma is_ready_upload [simp]: "is_ready (upload_item folder p)"
  by (simp add: is_ready_def upload_item_def)

lemma is_ready_download [simp]: "is_ready (download_item tree save_path item) = row_ok tree item"
  by (simp add: is_ready_def download_item_def row_ok_def split: option.splits)

lemma is_ready_delete [simp]: "is_ready (delete_item tree item) = row_ok tree item"
  by (simp add: is_ready_def delete_item_def row_ok_def split: option.splits)

lemma requests_steps_upload:
  "requests (steps (upload_item folder) lab n i ys) = map (\<lambda>p. UploadFile p folder) ys"
  by (induction ys arbitrary: i) (simp_all add: upload_item_def)

lemma requests_steps_download:
  "\<forall>x \<in> set ys. row_ok tree x \<Longrightarrow>
   requests (steps (download_item tree save_path) lab n i ys) = map (download_request tree save_path) ys"
  by (induction ys arbitrary: i)
     (auto simp: download_item_def download_request_def row_ok_def split: option.splits)

lemma requests_steps_delete:
  "\<forall>x \<in> set ys. row_ok tree x \<Longrightarrow>
   requests (steps (delete_item tree) lab n i ys) = map (delete_request tree) ys"
  by (induction ys arbitrary: i)
     (auto simp: delete_item_def delete_request_def row_ok_def split: option.splits)




text \<open>
  Claim C4. In a batch of \<open>N\<close> items in which the user cancels after \<open>k\<close> items have been
  processed (the calls for them have returned without an exception, \<open>k \<le> N\<close>), the drive
  manager is called for exactly the first \<open>k\<close> items, in order; the remaining \<open>N - k\<close>
  items are not attempted and nothing is reported as failed; and no completion message is
  shown. This holds for uploads, and for downloads and deletions of rows as the tree view
  holds them.
\<close>

theorem cancel_after_k_items:
  assumes "cancel_at env = Some k" and "k \<le> length items"
      and "\<forall>j < k. \<not> isl (answer env j)"
  shows "requests (perform_file_upload env folder items) =
           map (\<lambda>p. UploadFile p folder) (take k items) \<and>
         shown_errors (perform_file_upload env folder items) = [] \<and>
         summaries (perform_file_upload env folder items) = [] \<and>
         ((\<forall>x \<in> set (take k items). row_ok tree x) \<longrightarrow>
            requests (perform_download env tree items save_path) =
              map (download_request tree save_path) (take k items) \<and>
            shown_errors (perform_download env tree items save_path) = [] \<and>
            summaries (perform_download env tree items save_path) = [] \<and>
            requests (perform_deletion env tree items) =
              map (delete_request tree) (take k items) \<and>
            shown_errors (perform_deletion env tree items) = [] \<and>
            summaries (perform_deletion env tree items) = [])"
proof -
  have up: "perform_file_upload env folder items =
      steps (upload_item folder) Uploading (length items) 0 (take k items) @ [CloseDialog]"
    unfolding perform_file_upload_def using assms by (intro batch_thread_cancelled) simp_all
  have down: "perform_download env tree items save_path =
      steps (download_item tree save_path) Downloading (length items) 0 (take k items) @ [CloseDialog]"
    and del: "perform_deletion env tree items =
      steps (delete_item tree) Deleting (length items) 0 (take k items) @ [CloseDialog]"
    if "\<forall>x \<in> set (take k items). row_ok tree x"
    unfolding perform_download_def perform_deletion_def
    using assms that by (intro batch_thread_cancelled; simp)+
  show ?thesis
    by (simp add: up requests_steps_upload)
       (auto simp: down del requests_steps_download requests_steps_delete)
qed

text \<open>Three items, cancelled after the first: one call, no message.\<close>

theorem cancel_after_k_items_witness:
  "cancel_at (example_env [] (Some 1)) = Some 1 \<and>
   (1::nat) \<le> length [''I001'', ''I002'', ''I003''] \<and>
   \<not> isl (answer (example_env [] (Some 1)) 0) \<and>
   row_ok example_rows ''I001'' \<and>
   requests (perform_file_upload (example_env [] (Some 1))
       ''root'' [''I001'', ''I002'', ''I003'']) = [UploadFile ''I001'' ''root''] \<and>
   summaries (perform_file_upload (example_env [] (Some 1))
       ''root'' [''I001'', ''I002'', ''I003'']) = [] \<and>
   requests (perform_download (example_env [] (Some 1))
       example_rows [''I001'', ''I002'', ''I003''] ''/tmp'') = [DownloadFile ''id-a'' ''/tmp/a.txt''] \<and>
   shown_errors (perform_download (example_env [] (Some 1))
       example_rows [''I001'', ''I002'', ''I003''] ''/tmp'') = []"
  using cancel_after_k_items [of "(example_env [] (Some 1))"
      1 "[''I001'', ''I002'', ''I003'']" "''root''" example_rows "''/tmp''"]
  by (simp add: answers_of_def example_env_def row_ok_def example_rows_def
        delete_request_def download_request_def path_join_def)

lemma download_item_Ready:
  "download_item tree save_path item = Ready name r \<Longrightarrow>
   \<exists>vals. tree item = Some vals \<and> name = vals ! 6"
  by (auto simp: download_item_def split: option.splits if_splits)

lemma delete_item_Ready:
  "delete_item tree item = Ready name r \<Longrightarrow>
   \<exists>vals. tree item = Some vals \<and> name = vals ! 6"
  by (auto simp: delete_item_def split: option.splits if_splits)

text \<open>
  Claim C5. In every run of a batch of \<open>N\<close> items, whatever fails or is cancelled, each
  status update is the one of an item at some index \<open>i < N\<close>: its text counts \<open>i + 1\<close> of
  \<open>N\<close> and its progress is \<open>i / N * 100\<close>, the share of the items before it. Hence the
  progress values reported in the run never decrease and never exceed 100.
\<close>

theorem progress_is_index_over_total:
  "(\<forall>e \<in> set (status_updates (perform_file_upload env folder items)).
      \<exists>i < length items.
        e = UpdateStatus (Uploading (basename (items ! i)) (i + 1) (length items))
              (Some ((real i / real (length items)) * 100))) \<and>
   sorted (progress_reports (perform_file_upload env folder items)) \<and>
   (\<forall>p \<in> set (progress_reports (perform_file_upload env folder items)). p \<le> 100) \<and>
   (\<forall>e \<in> set (status_updates (perform_download env tree items save_path)).
      \<exists>i < length items. \<exists>vals. tree (items ! i) = Some vals \<and>
        e = UpdateStatus (Downloading (vals ! 6) (i + 1) (length items))
              (Some ((real i / real (length items)) * 100))) \<and>
   sorted (progress_reports (perform_download env tree items save_path)) \<and>
   (\<forall>p \<in> set (progress_reports (perform_download env tree items save_path)). p \<le> 100) \<and>
   (\<forall>e \<in> set (status_updates (perform_deletion env tree items)).
      \<exists>i < length items. \<exists>vals. tree (items ! i) = Some vals \<and>
        e = UpdateStatus (Deleting (vals ! 6) (i + 1) (length items))
              (Some ((real i / real (length items)) * 100))) \<and>
   sorted (progress_reports (perform_deletion env tree items)) \<and>
   (\<forall>p \<in> set (progress_reports (perform_deletion env tree items)). p \<le> 100)"
proof -
  note up = batch_thread_progress [OF perform_file_upload_def]
  note down = batch_thread_progress [OF perform_download_def]
  note del = batch_thread_progress [OF perform_deletion_def]
  have 1: "\<forall>e \<in> set (status_updates (perform_file_upload env folder items)).
      \<exists>i < length items.
        e = UpdateStatus (Uploading (basename (items ! i)) (i + 1) (length items))
              (Some ((real i / real (length items)) * 100))"
    using up(1) [of env folder items] by (fastforce simp: upload_item_def)
  have 2: "\<forall>e \<in> set (status_updates (perform_download env tree items save_path)).
      \<exists>i < length items. \<exists>vals. tree (items ! i) = Some vals \<and>
        e = UpdateStatus (Downloading (vals ! 6) (i + 1) (length items))
              (Some ((real i / real (length items)) * 100))"
    using down(1) [of env tree items save_path] by (fastforce dest: download_item_Ready)
  have 3: "\<forall>e \<in> set (status_updates (perform_deletion env tree items)).
      \<exists>i < length items. \<exists>vals. tree (items ! i) = Some vals \<and>
        e = UpdateStatus (Deleting (vals ! 6) (i + 1) (length items))
              (Some ((real i / real (length items)) * 100))"
    using del(1) [of env tree items] by (fastforce dest: delete_item_Ready)
  show ?thesis
    using 1 2 3 up(2,3) [of env folder items] down(2,3) [of env tree items save_path]
      del(2,3) [of env tree items]
    by blast
qed

text \<open>Two uploads and two downloads: the progress reported is 0, then 50.\<close>

theorem progress_is_index_over_total_witness:
  "status_updates (perform_file_upload (example_env [] None)
      ''root'' [''/home/u/a.txt'', ''/home/u/b.txt'']) =
     [UpdateStatus (Uploading ''a.txt'' 1 2) (Some 0), UpdateStatus (Uploading ''b.txt'' 2 2) (Some 50)] \<and>
   sorted (progress_reports (perform_file_upload
      (example_env [] None)
      ''root'' [''/home/u/a.txt'', ''/home/u/b.txt''])) \<and>
   progress_reports (perform_file_upload
      (example_env [] None)
      ''root'' [''/home/u/a.txt'', ''/home/u/b.txt'']) = [0, 50] \<and>
   progress_reports (perform_download (example_env [] None)
      example_rows [''I001'', ''I002''] ''/tmp'') = [0, 50]"
  using progress_is_index_over_total [of "(example_env [] None)"
      "''root''" "[''/home/u/a.txt'', ''/home/u/b.txt'']" example_rows "''/tmp''"]
  by (simp add: perform_file_upload_def perform_download_def batch_thread_def upload_item_def
        download_item_def example_rows_def basename_def path_join_def
        is_cancelled_def drive_call_def answers_of_def example_env_def Let_def)

section \<open>Properties of the recursive folder upload\<close>

subsection \<open>Cancellation\<close>

text \<open>No function of the traversal depends on the cancellation.\<close>

lemma drive_call_cancel [simp]: "drive_call (env\<lparr>cancel_at := c\<rparr>) r tr = drive_call env r tr"
  by (simp add: drive_call_def)

lemma create_subdirs_cancel [simp]:
  "create_subdirs (env\<lparr>cancel_at := c\<rparr>) cb rel cur dirs m tr = create_subdirs env cb rel cur dirs m tr"
  by (induction dirs arbitrary: m tr) (simp_all add: create_folder_def split: prod.splits sum.splits)

lemma upload_files_cancel [simp]:
  "upload_files (env\<lparr>cancel_at := c\<rparr>) cb L rel cur files tr = upload_files env cb L rel cur files tr"
  by (induction files arbitrary: tr) (simp_all add: upload_file_def split: prod.splits sum.splits)

lemma walk_loop_cancel [simp]:
  "walk_loop (env\<lparr>cancel_at := c\<rparr>) cb L fid ws m tr = walk_loop env cb L fid ws m tr"
proof (induction ws arbitrary: m tr)
  case Nil
  show ?case by simp
next
  case (Cons a ws)
  obtain rel dirs files where a: "a = (rel, dirs, files)" by (cases a)
  show ?case unfolding a by (simp add: Let_def Cons.IH split: prod.splits sum.splits)
qed

lemma upload_folder_recursive_cancel:
  "upload_folder_recursive (env\<lparr>cancel_at := c\<rparr>) cb L found parent tr =
   upload_folder_recursive env cb L found parent tr"
  by (simp add: upload_folder_recursive_def create_folder_def
      split: option.splits prod.splits sum.splits)

lemma folder_upload_calls_whatever_cancel:
  "requests (perform_folder_upload (env\<lparr>cancel_at := c\<rparr>) folder_path found current_folder) =
   requests (perform_folder_upload env folder_path found current_folder)"
  by (simp add: perform_folder_upload_def upload_folder_recursive_cancel
      split: prod.splits sum.splits)

text \<open>
  Claim C2 says that after the cancellation flag is set the traversal starts no further
  \<open>create_folder\<close> or \<open>upload_file\<close> call. The code does not do this:
  \<open>upload_folder_recursive\<close> never reads the flag. In the run below the user cancels
  when the first call (the creation of the main folder) has returned, and the three
  remaining calls are made all the same.
\<close>

theorem folder_upload_ignores_cancel:
  "requests (perform_folder_upload
     (example_env [Inr ''F0'', Inr ''F1''] (Some 1))
     ''/home/u/root'' (Some example_tree) ''dest'') =
   [CreateFolder ''root'' ''dest'', CreateFolder ''sub'' ''F0'',
    UploadFile ''/home/u/root/a.txt'' ''F0'', UploadFile ''/home/u/root/sub/b.txt'' ''F1''] \<and>
   is_cancelled
     (example_env [Inr ''F0'', Inr ''F1''] (Some 1))
     [Call (CreateFolder ''root'' ''dest'')]"
  by (simp add: perform_folder_upload_def upload_folder_recursive_def create_folder_def
      upload_file_def drive_call_def notify_def example_tree_def answers_of_def basename_def
      local_path_def path_join_def is_cancelled_def example_env_def Let_def)

subsection \<open>The traversal hands every id to the right directory\<close>

text \<open>
  When no call fails, the two inner loops make one call per name, and the loop over the
  subdirectories records the id of each under its relative path.
\<close>

lemma requests_notify [simp]: "requests (notify cb l tr) = requests tr"
  by (simp add: notify_def)

lemma drive_call_ok:
  assumes "\<forall>n. \<not> isl (answer env n)"
  shows "drive_call env r tr = (Inr (the_id env (length (requests tr))), tr @ [Call r])"
proof -
  from assms have "\<not> isl (answer env (length (requests tr)))" by blast
  then show ?thesis by (cases "answer env (length (requests tr))") (simp_all add: drive_call_def the_id_def)
qed

lemma create_subdirs_ok:
  assumes ok: "\<forall>n. \<not> isl (answer env n)"
  shows "\<exists>m' tr'. create_subdirs env cb rel cur dirs m tr = (Inr m', tr') \<and>
           requests tr' = requests tr @ map (\<lambda>d. CreateFolder d cur) dirs \<and>
           (\<forall>q. q \<notin> (\<lambda>d. rel @ [d]) ` set dirs \<longrightarrow> m' q = m q) \<and>
           (distinct dirs \<longrightarrow>
              (\<forall>j < length dirs. m' (rel @ [dirs ! j]) = Some (the_id env (length (requests tr) + j))))"
proof (induction dirs arbitrary: m tr)
  case Nil
  show ?case by simp
next
  case (Cons d dirs)
  let ?tr1 = "notify cb (CreatingFolder (rel @ [d])) tr @ [Call (CreateFolder d cur)]"
  let ?m1 = "m(rel @ [d] \<mapsto> the_id env (length (requests tr)))"
  from Cons.IH [of ?m1 ?tr1] obtain m' tr' where
    run: "create_subdirs env cb rel cur dirs ?m1 ?tr1 = (Inr m', tr')"
    and reqs: "requests tr' = requests ?tr1 @ map (\<lambda>d. CreateFolder d cur) dirs"
    and keep: "\<forall>q. q \<notin> (\<lambda>d. rel @ [d]) ` set dirs \<longrightarrow> m' q = ?m1 q"
    and new: "distinct dirs \<longrightarrow>
      (\<forall>j < length dirs. m' (rel @ [dirs ! j]) = Some (the_id env (length (requests ?tr1) + j)))"
    by blast
  have 1: "create_subdirs env cb rel cur (d # dirs) m tr = (Inr m', tr')"
    using run by (simp add: create_folder_def drive_call_ok [OF ok])
  have 2: "requests tr' = requests tr @ map (\<lambda>d. CreateFolder d cur) (d # dirs)"
    using reqs by simp
  have 3: "\<forall>q. q \<notin> (\<lambda>d. rel @ [d]) ` set (d # dirs) \<longrightarrow> m' q = m q"
    using keep by auto
  have 4: "distinct (d # dirs) \<longrightarrow>
      (\<forall>j < length (d # dirs). m' (rel @ [(d # dirs) ! j]) = Some (the_id env (length (requests tr) + j)))"
  proof (intro impI allI)
    fix j assume dist: "distinct (d # dirs)" and j: "j < length (d # dirs)"
    show "m' (rel @ [(d # dirs) ! j]) = Some (the_id env (length (requests tr) + j))"
    proof (cases j)
      case 0
      from dist have "rel @ [d] \<notin> (\<lambda>d. rel @ [d]) ` set dirs" by auto
      with keep have "m' (rel @ [d]) = ?m1 (rel @ [d])" by blast
      with 0 show ?thesis by simp
    next
      case (Suc i)
      with j dist new show ?thesis by simp
    qed
  qed
  from 1 2 3 4 show ?case by blast
qed

lemma upload_files_ok:
  assumes ok: "\<forall>n. \<not> isl (answer env n)"
  shows "\<exists>tr'. upload_files env cb L rel cur files tr = (Inr (), tr') \<and>
           requests tr' = requests tr @ map (\<lambda>f. UploadFile (local_path L (rel @ [f])) cur) files"
proof (induction files arbitrary: tr)
  case Nil
  show ?case by simp
next
  case (Cons f files)
  let ?tr1 = "notify cb (UploadingPath (rel @ [f])) tr @
                [Call (UploadFile (local_path L (rel @ [f])) cur)]"
  from Cons.IH [of ?tr1] obtain tr' where
    "upload_files env cb L rel cur files ?tr1 = (Inr (), tr')"
    "requests tr' = requests ?tr1 @ map (\<lambda>f. UploadFile (local_path L (rel @ [f])) cur) files"
    by blast
  then have "upload_files env cb L rel cur (f # files) tr = (Inr (), tr') \<and>
      requests tr' = requests tr @ map (\<lambda>f. UploadFile (local_path L (rel @ [f])) cur) (f # files)"
    by (simp add: upload_file_def drive_call_ok [OF ok])
  then show ?case by blast
qed


lemma strict_prefix_snoc: "strict_prefix rel (rel @ [d])"
  by (simp add: strict_prefix_def)

lemma strict_prefix_snoc_trans: "strict_prefix (rel @ [d]) q \<Longrightarrow> strict_prefix rel q"
  by (auto simp: strict_prefix_def prefix_def)

lemma not_strict_prefix_sibling: "\<not> strict_prefix (rel @ [d]) (rel @ [x])"
  by (auto simp: strict_prefix_def prefix_def)

text \<open>
  Walking a directory whose relative path is mapped to \<open>pid\<close> makes the calls of
  \<open>tree_requests\<close> and changes \<open>folder_map\<close> only at paths strictly below that
  directory: the entries of the directories still to be walked stay as they are.
\<close>

lemma walk_tree_refines:
  assumes ok: "\<forall>n. \<not> isl (answer env n)"
  shows "wf_tree t \<Longrightarrow> m rel = Some pid \<Longrightarrow>
     \<exists>m' tr'. (\<forall>rest. walk_loop env cb L fid (walk rel t @ rest) m tr =
                       walk_loop env cb L fid rest m' tr') \<and>
        requests tr' =
          requests tr @ tree_requests (the_id env) L rel pid (length (requests tr)) t \<and>
        (\<forall>q. \<not> strict_prefix rel q \<longrightarrow> m' q = m q)"
proof (induction t arbitrary: rel pid m tr)
  case (Dir ds fs)
  let ?idf = "the_id env"
  have wf_kids: "wf_tree t'" if "(d, t') \<in> set ds" for d t'
    using Dir.prems(1) that by auto
  have dist: "distinct (map fst ds)" using Dir.prems(1) by simp
  have kids: "\<exists>m' tr'.
      (\<forall>rest. walk_loop env cb L fid (concat (map (\<lambda>(d, t). walk (rel @ [d]) t) cs) @ rest) m0 tr0 =
               walk_loop env cb L fid rest m' tr') \<and>
      requests tr' = requests tr0 @ children_requests ?idf L rel k (length (requests tr0)) cs \<and>
      (\<forall>q. \<not> strict_prefix rel q \<longrightarrow> m' q = m0 q)"
    if "set cs \<subseteq> set ds"
      and "\<forall>j < length cs. m0 (rel @ [fst (cs ! j)]) = Some (?idf (k + j))"
    for cs m0 tr0 k
    using that
  proof (induction cs arbitrary: m0 tr0 k)
    case Nil
    show ?case by (intro exI [of _ m0] exI [of _ tr0]) simp
  next
    case (Cons c cs)
    obtain d t' where c: "c = (d, t')" by (cases c)
    from Cons.prems(1) have mem: "(d, t') \<in> set ds" by (simp add: c)
    from Cons.prems(2) have "0 < length (c # cs) \<longrightarrow>
        m0 (rel @ [fst ((c # cs) ! 0)]) = Some (?idf (k + 0))" by blast
    then have here: "m0 (rel @ [d]) = Some (?idf k)" by (simp add: c)
    have "t' \<in> Basic_BNFs.snds (d, t')" by simp
    from Dir.IH [where m = m0 and rel = "rel @ [d]" and pid = "?idf k" and tr = tr0,
        OF mem this wf_kids [OF mem] here]
    obtain m1 tr1 where
      run1: "\<forall>rest. walk_loop env cb L fid (walk (rel @ [d]) t' @ rest) m0 tr0 =
                    walk_loop env cb L fid rest m1 tr1"
      and reqs1: "requests tr1 =
          requests tr0 @ tree_requests ?idf L (rel @ [d]) (?idf k) (length (requests tr0)) t'"
      and keep1: "\<forall>q. \<not> strict_prefix (rel @ [d]) q \<longrightarrow> m1 q = m0 q"
      by blast
    have later: "\<forall>j < length cs. m1 (rel @ [fst (cs ! j)]) = Some (?idf (Suc k + j))"
    proof (intro allI impI)
      fix j assume j: "j < length cs"
      have "\<not> strict_prefix (rel @ [d]) (rel @ [fst (cs ! j)])"
        by (rule not_strict_prefix_sibling)
      with keep1 have "m1 (rel @ [fst (cs ! j)]) = m0 (rel @ [fst (cs ! j)])"
        by blast
      also have "\<dots> = m0 (rel @ [fst ((c # cs) ! Suc j)])" by simp
      also have "\<dots> = Some (?idf (k + Suc j))"
      proof -
        from Cons.prems(2) have "Suc j < length (c # cs) \<longrightarrow>
          m0 (rel @ [fst ((c # cs) ! Suc j)]) = Some (?idf (k + Suc j))" by blast
        with j show ?thesis by simp
      qed
      finally show "m1 (rel @ [fst (cs ! j)]) = Some (?idf (Suc k + j))" by simp
    qed
    from Cons.prems(1) have sub: "set cs \<subseteq> set ds" by simp
    from Cons.IH [OF sub later, of tr1] obtain m2 tr2 where
      run2: "\<forall>rest. walk_loop env cb L fid (concat (map (\<lambda>(d, t). walk (rel @ [d]) t) cs) @ rest) m1 tr1 =
                    walk_loop env cb L fid rest m2 tr2"
      and reqs2: "requests tr2 =
          requests tr1 @ children_requests ?idf L rel (Suc k) (length (requests tr1)) cs"
      and keep2: "\<forall>q. \<not> strict_prefix rel q \<longrightarrow> m2 q = m1 q"
      by blast
    have A: "\<forall>rest. walk_loop env cb L fid
               (concat (map (\<lambda>(d, t). walk (rel @ [d]) t) (c # cs)) @ rest) m0 tr0 =
             walk_loop env cb L fid rest m2 tr2"
      using run1 run2 by (simp add: c)
    have B: "requests tr2 =
        requests tr0 @ children_requests ?idf L rel k (length (requests tr0)) (c # cs)"
      using reqs1 reqs2 by (simp add: c)
    have C: "\<forall>q. \<not> strict_prefix rel q \<longrightarrow> m2 q = m0 q"
    proof (intro allI impI)
      fix q assume q: "\<not> strict_prefix rel q"
      have "\<not> strict_prefix (rel @ [d]) q"
      proof
        assume "strict_prefix (rel @ [d]) q"
        then have "strict_prefix rel q" by (rule strict_prefix_snoc_trans)
        with q show False by simp
      qed
      then have "m1 q = m0 q" by (simp add: keep1)
      moreover from q have "m2 q = m1 q" by (simp add: keep2)
      ultimately show "m2 q = m0 q" by simp
    qed
    from A B C show ?case by blast
  qed
  let ?n = "length (requests tr)"
  from create_subdirs_ok [OF ok, of cb rel pid "map fst ds" m tr] dist
  obtain m1 tr1 where
    cr: "create_subdirs env cb rel pid (map fst ds) m tr = (Inr m1, tr1)"
    and reqs1: "requests tr1 = requests tr @ map (\<lambda>d. CreateFolder d pid) (map fst ds)"
    and keep1: "\<forall>q. q \<notin> (\<lambda>d. rel @ [d]) ` set (map fst ds) \<longrightarrow> m1 q = m q"
    and new1: "\<forall>j < length ds. m1 (rel @ [fst (ds ! j)]) = Some (?idf (?n + j))"
    by auto
  from upload_files_ok [OF ok, of cb L rel pid fs tr1]
  obtain tr2 where
    up: "upload_files env cb L rel pid fs tr1 = (Inr (), tr2)"
    and reqs2: "requests tr2 =
        requests tr1 @ map (\<lambda>f. UploadFile (local_path L (rel @ [f])) pid) fs"
    by blast
  from kids [of ds m1 ?n tr2] new1 obtain m3 tr3 where
    run3: "\<forall>rest. walk_loop env cb L fid (concat (map (\<lambda>(d, t). walk (rel @ [d]) t) ds) @ rest) m1 tr2 =
                  walk_loop env cb L fid rest m3 tr3"
    and reqs3: "requests tr3 = requests tr2 @ children_requests ?idf L rel ?n (length (requests tr2)) ds"
    and keep3: "\<forall>q. \<not> strict_prefix rel q \<longrightarrow> m3 q = m1 q"
    by auto
  have A: "\<forall>rest. walk_loop env cb L fid (walk rel (Dir ds fs) @ rest) m tr =
                  walk_loop env cb L fid rest m3 tr3"
    using run3 by (simp add: Dir.prems(2) cr up)
  have len2: "length (requests tr2) = ?n + length ds + length fs"
    by (simp add: reqs1 reqs2)
  have B: "requests tr3 = requests tr @ tree_requests ?idf L rel pid ?n (Dir ds fs)"
    by (simp add: reqs3 len2) (simp add: reqs2 reqs1)
  have C: "\<forall>q. \<not> strict_prefix rel q \<longrightarrow> m3 q = m q"
  proof (intro allI impI)
    fix q assume q: "\<not> strict_prefix rel q"
    then have "q \<notin> (\<lambda>d. rel @ [d]) ` set (map fst ds)"
      by (auto simp: strict_prefix_snoc)
    with keep1 keep3 q show "m3 q = m q" by simp
  qed
  from A B C show ?case by blast
qed


lemma upload_folder_recursive_refines:
  assumes ok: "\<forall>n. \<not> isl (answer env n)" and wf: "wf_tree t"
  shows "\<exists>tr'. upload_folder_recursive env cb L (Some t) dest tr =
                 (Inr (the_id env (length (requests tr))), tr') \<and>
           requests tr' =
             requests tr @ CreateFolder (basename L) dest #
               tree_requests (the_id env) L [] (the_id env (length (requests tr)))
                 (Suc (length (requests tr))) t"
proof -
  let ?fid = "the_id env (length (requests tr))"
  let ?tr1 = "tr @ [Call (CreateFolder (basename L) dest)]"
  from walk_tree_refines [OF ok wf, of "[[] \<mapsto> ?fid]" "[]" ?fid cb L ?fid ?tr1]
  obtain m' tr' where
    run: "\<forall>rest. walk_loop env cb L ?fid (walk [] t @ rest) [[] \<mapsto> ?fid] ?tr1 =
                  walk_loop env cb L ?fid rest m' tr'"
    and reqs: "requests tr' =
        requests ?tr1 @ tree_requests (the_id env) L [] ?fid (length (requests ?tr1)) t"
    by auto
  from run have "walk_loop env cb L ?fid (walk [] t @ []) [[] \<mapsto> ?fid] ?tr1 =
      walk_loop env cb L ?fid [] m' tr'" by blast
  then have "walk_loop env cb L ?fid (walk [] t) [[] \<mapsto> ?fid] ?tr1 = (Inr (), tr')"
    by simp
  then have "upload_folder_recursive env cb L (Some t) dest tr = (Inr ?fid, tr')"
    by (simp add: upload_folder_recursive_def create_folder_def drive_call_ok [OF ok])
  with reqs show ?thesis by simp
qed

text \<open>Positions of calls within a block that is part of a longer block.\<close>

lemma placed_append_left: "placed R n i r \<Longrightarrow> placed (R @ R') n i r"
  by (auto simp: placed_def nth_append)

lemma placed_append_right: "placed R' (n + length R) i r \<Longrightarrow> placed (R @ R') n i r"
  by (auto simp: placed_def nth_append)

lemma mirrors_append_left: "mirrors idf L rel t c R n \<Longrightarrow> mirrors idf L rel t c (R @ R') n"
  unfolding mirrors_def by (fast intro: placed_append_left)

lemma mirrors_append_right:
  "mirrors idf L rel t c R' (n + length R) \<Longrightarrow> mirrors idf L rel t c (R @ R') n"
  unfolding mirrors_def by (fast intro: placed_append_right)

lemma subdirs_mem:
  "(q, x) \<in> set (subdirs (Dir ds fs)) \<longleftrightarrow>
     (q = [] \<and> x \<in> fst ` set ds) \<or>
     (\<exists>d t q'. (d, t) \<in> set ds \<and> q = d # q' \<and> (q', x) \<in> set (subdirs t))"
  by force

lemma files_in_mem:
  "(q, f) \<in> set (files_in (Dir ds fs)) \<longleftrightarrow>
     (q = [] \<and> f \<in> set fs) \<or>
     (\<exists>d t q'. (d, t) \<in> set ds \<and> q = d # q' \<and> (q', f) \<in> set (files_in t))"
  by force

subsection \<open>Order and parents of the calls\<close>

lemma same_name_same_tree:
  "distinct (map fst ds) \<Longrightarrow> (d, t) \<in> set ds \<Longrightarrow> (d, t') \<in> set ds \<Longrightarrow> t = t'"
  by (rule eq_key_imp_eq_value)

text \<open>
  The calls of \<open>tree_requests\<close> mirror the tree; by induction over the tree and over
  the list of the subdirectories of a directory.
\<close>

lemma mirrors_tree_children:
  shows "wf_tree t \<Longrightarrow> pid = idf c0 \<Longrightarrow> c0 < n \<Longrightarrow>
           \<exists>c. c [] = c0 \<and> mirrors idf L rel t c (tree_requests idf L rel pid n t) n"
    and "(\<forall>(d, t) \<in> set cs. wf_tree t) \<Longrightarrow> k + length cs \<le> n \<Longrightarrow>
           \<forall>j < length cs. \<exists>c. c [] = k + j \<and>
             mirrors idf L (rel @ [fst (cs ! j)]) (snd (cs ! j)) c
               (children_requests idf L rel k n cs) n"
proof (induction idf L rel pid n t and idf L rel k n cs arbitrary: c0
       rule: tree_requests_children_requests.induct)
  case (1 idf L rel pid n ds fs)
  let ?n' = "n + length ds + length fs"
  let ?creates = "map (\<lambda>d. CreateFolder d pid) (map fst ds)"
  let ?uploads = "map (\<lambda>f. UploadFile (local_path L (rel @ [f])) pid) fs"
  let ?kids = "children_requests idf L rel n ?n' ds"
  let ?R = "tree_requests idf L rel pid n (Dir ds fs)"
  have R: "?R = ?creates @ ?uploads @ ?kids" by simp
  have dist: "distinct (map fst ds)" using "1.prems"(1) by simp
  have wfk: "\<forall>(d, t) \<in> set ds. wf_tree t" using "1.prems"(1) by simp
  from "1.IH" [OF wfk] have kids:
    "\<forall>j < length ds. \<exists>c. c [] = n + j \<and>
       mirrors idf L (rel @ [fst (ds ! j)]) (snd (ds ! j)) c ?kids ?n'"
    by simp
  have "\<forall>x \<in> fst ` set ds. \<exists>c. \<exists>j < length ds. fst (ds ! j) = x \<and> c [] = n + j \<and>
          mirrors idf L (rel @ [x]) (snd (ds ! j)) c ?kids ?n'"
  proof
    fix x assume "x \<in> fst ` set ds"
    then obtain j where j: "j < length ds" "fst (ds ! j) = x"
      by (auto simp: in_set_conv_nth)
    with kids obtain c where "c [] = n + j"
      "mirrors idf L (rel @ [fst (ds ! j)]) (snd (ds ! j)) c ?kids ?n'" by blast
    with j show "\<exists>c. \<exists>j < length ds. fst (ds ! j) = x \<and> c [] = n + j \<and>
          mirrors idf L (rel @ [x]) (snd (ds ! j)) c ?kids ?n'" by blast
  qed
  then have "\<exists>C. \<forall>x \<in> fst ` set ds. \<exists>j < length ds. fst (ds ! j) = x \<and> C x [] = n + j \<and>
          mirrors idf L (rel @ [x]) (snd (ds ! j)) (C x) ?kids ?n'"
    by (rule bchoice)
  then obtain C where C:
    "\<forall>x \<in> fst ` set ds. \<exists>j < length ds. fst (ds ! j) = x \<and> C x [] = n + j \<and>
          mirrors idf L (rel @ [x]) (snd (ds ! j)) (C x) ?kids ?n'" ..
  have Cmem: "\<exists>j < length ds. ds ! j = (d, t) \<and> C d [] = n + j \<and>
      mirrors idf L (rel @ [d]) t (C d) ?kids ?n'" if mem: "(d, t) \<in> set ds" for d t
  proof -
    from mem have "d \<in> fst ` set ds" by force
    with C obtain j where j: "j < length ds" "fst (ds ! j) = d" "C d [] = n + j"
      "mirrors idf L (rel @ [d]) (snd (ds ! j)) (C d) ?kids ?n'" by blast
    from j(1,2) have "(d, snd (ds ! j)) \<in> set ds"
      by (metis nth_mem prod.collapse)
    with dist mem have "snd (ds ! j) = t" by (metis same_name_same_tree)
    with j show ?thesis by (metis prod.collapse)
  qed
  define c where "c = (\<lambda>q. case q of [] \<Rightarrow> c0 | x # q' \<Rightarrow> C x q')"
  have c_Nil: "c [] = c0" and c_Cons: "c (x # q') = C x q'" for x q'
    by (simp_all add: c_def)
  have up_kids: "placed ?R n i r" if "placed ?kids ?n' i r" for i r
  proof -
    from that have "placed (?uploads @ ?kids) (n + length ?creates) i r"
      by (intro placed_append_right) simp
    then have "placed (?creates @ ?uploads @ ?kids) n i r"
      by (rule placed_append_right)
    then show ?thesis by simp
  qed
  have dirs: "c q < c (q @ [x]) \<and> placed ?R n (c (q @ [x])) (CreateFolder x (idf (c q)))"
    if "(q, x) \<in> set (subdirs (Dir ds fs))" for q x
  proof -
    from that consider (top) "q = []" "x \<in> fst ` set ds"
      | (deep) d t q' where "(d, t) \<in> set ds" "q = d # q'" "(q', x) \<in> set (subdirs t)"
      unfolding subdirs_mem by blast
    then show ?thesis
    proof cases
      case top
      then obtain t where "(x, t) \<in> set ds" by auto
      from Cmem [OF this] obtain j where j: "j < length ds" "ds ! j = (x, t)" "C x [] = n + j"
        by blast
      have "?R ! j = CreateFolder x pid"
        using j by (simp add: nth_append)
      then have "placed ?R n (n + j) (CreateFolder x (idf c0))"
        using j(1) "1.prems"(2) by (simp add: placed_def)
      with top j "1.prems"(3) show ?thesis by (simp add: c_Nil c_Cons)
    next
      case deep
      from Cmem [OF deep(1)] have "mirrors idf L (rel @ [d]) t (C d) ?kids ?n'" by blast
      with deep(3) have "C d q' < C d (q' @ [x]) \<and>
          placed ?kids ?n' (C d (q' @ [x])) (CreateFolder x (idf (C d q')))"
        unfolding mirrors_def by blast
      with deep(2) show ?thesis by (simp add: c_Cons up_kids del: tree_requests.simps)
    qed
  qed
  have files: "\<exists>u. c q < u \<and>
      placed ?R n u (UploadFile (local_path L (rel @ q @ [f])) (idf (c q)))"
    if "(q, f) \<in> set (files_in (Dir ds fs))" for q f
  proof -
    from that consider (top) "q = []" "f \<in> set fs"
      | (deep) d t q' where "(d, t) \<in> set ds" "q = d # q'" "(q', f) \<in> set (files_in t)"
      unfolding files_in_mem by blast
    then show ?thesis
    proof cases
      case top
      then obtain i where i: "i < length fs" "fs ! i = f" by (auto simp: in_set_conv_nth)
      have "?R ! (length ds + i) = UploadFile (local_path L (rel @ [f])) pid"
        using i by (simp add: nth_append)
      then have "placed ?R n (n + length ds + i)
          (UploadFile (local_path L (rel @ [] @ [f])) (idf c0))"
        using i(1) "1.prems"(2) by (simp add: placed_def add.assoc)
      moreover have "c0 < n + length ds + i" using "1.prems"(3) by simp
      ultimately show ?thesis using top by (auto simp: c_Nil)
    next
      case deep
      from Cmem [OF deep(1)] have "mirrors idf L (rel @ [d]) t (C d) ?kids ?n'" by blast
      with deep(3) obtain u where "C d q' < u"
        "placed ?kids ?n' u (UploadFile (local_path L ((rel @ [d]) @ q' @ [f])) (idf (C d q')))"
        unfolding mirrors_def by blast
      with deep(2) have "c q < u \<and>
          placed ?R n u (UploadFile (local_path L (rel @ q @ [f])) (idf (c q)))"
        by (simp add: c_Cons up_kids del: tree_requests.simps)
      then show ?thesis by blast
    qed
  qed
  have "mirrors idf L rel (Dir ds fs) c ?R n"
    unfolding mirrors_def using dirs files by blast
  with c_Nil show ?case by blast
next
  case (2 idf L rel k n)
  show ?case by simp
next
  case (3 idf L rel k n d t ds)
  let ?Rt = "tree_requests idf L (rel @ [d]) (idf k) n t"
  let ?n' = "n + length ?Rt"
  let ?Rrest = "children_requests idf L rel (Suc k) ?n' ds"
  have R: "children_requests idf L rel k n ((d, t) # ds) = ?Rt @ ?Rrest" by simp
  from "3.prems"(1) have wft: "wf_tree t" and wfr: "\<forall>(d, t) \<in> set ds. wf_tree t" by simp_all
  from "3.prems"(2) have kn: "k < n" and rest: "Suc k + length ds \<le> ?n'" by simp_all
  from "3.IH"(1) [OF wft refl kn] obtain c where
    c: "c [] = k" "mirrors idf L (rel @ [d]) t c ?Rt n" by blast
  from "3.IH"(3) [OF wfr rest] have later:
    "\<forall>j < length ds. \<exists>c. c [] = Suc k + j \<and>
       mirrors idf L (rel @ [fst (ds ! j)]) (snd (ds ! j)) c ?Rrest ?n'" .
  show ?case
  proof (intro allI impI)
    fix j assume j: "j < length ((d, t) # ds)"
    show "\<exists>c. c [] = k + j \<and>
        mirrors idf L (rel @ [fst (((d, t) # ds) ! j)]) (snd (((d, t) # ds) ! j)) c
          (children_requests idf L rel k n ((d, t) # ds)) n"
    proof (cases j)
      case 0
      from c(2) have "mirrors idf L (rel @ [d]) t c (?Rt @ ?Rrest) n"
        by (rule mirrors_append_left)
      with c(1) 0 show ?thesis unfolding R by auto
    next
      case (Suc i)
      with j later obtain c' where c': "c' [] = Suc k + i"
        "mirrors idf L (rel @ [fst (ds ! i)]) (snd (ds ! i)) c' ?Rrest ?n'" by auto
      from c'(2) have "mirrors idf L (rel @ [fst (ds ! i)]) (snd (ds ! i)) c' (?Rt @ ?Rrest) n"
        by (rule mirrors_append_right)
      with c'(1) Suc show ?thesis unfolding R by auto
    qed
  qed
qed

lemma length_tree_children_requests:
  shows "length (tree_requests idf L rel pid n t) = length (subdirs t) + length (files_in t)"
    and "length (children_requests idf L rel k n cs) =
           (\<Sum>(d, t) \<leftarrow> cs. length (subdirs t) + length (files_in t))"
proof (induction idf L rel pid n t and idf L rel k n cs
       rule: tree_requests_children_requests.induct)
  case (1 idf L rel pid n ds fs)
  have "length (concat (map (\<lambda>(d, t). map (\<lambda>(q, x). (d # q, x)) (subdirs t)) ds)) +
        length (concat (map (\<lambda>(d, t). map (\<lambda>(q, x). (d # q, x)) (files_in t)) ds)) =
        (\<Sum>(d, t) \<leftarrow> ds. length (subdirs t) + length (files_in t))"
    by (induction ds) (auto simp: length_concat)
  with "1.IH" show ?case by simp
next
  case (2 idf L rel k n)
  show ?case by simp
next
  case (3 idf L rel k n d t ds)
  then show ?case by simp
qed

lemma answers_of_all_Inr: "\<forall>x \<in> set xs. \<not> isl x \<Longrightarrow> \<not> isl (answers_of xs n)"
  by (simp add: answers_of_def)

text \<open>
  Claim C6. In a recursive folder upload of a directory tree (the subdirectories of one
  directory having different names) in which no call fails, there is one call for the main
  folder, one for each directory below it and one for each file, and the calls can be
  assigned to the directories so that: the main folder is created first; every directory
  is created, under its own name, in the folder that the call for its parent directory
  returned, and after that call; and every file is uploaded into the folder that the call
  for the directory directly containing it returned, and after that call. For the tree
  \<open>root/{a.txt, sub/{b.txt}}\<close> the run is given with the theorem that follows.
\<close>

theorem folder_upload_parent_before_child:
  assumes "wf_tree t" and "\<forall>n. \<not> isl (answer env n)"
  shows "\<exists>c. c [] = 0 \<and>
     fst (upload_folder_recursive env cb L (Some t) dest []) = Inr (the_id env 0) \<and>
     length (requests (snd (upload_folder_recursive env cb L (Some t) dest []))) =
       Suc (length (subdirs t) + length (files_in t)) \<and>
     requests (snd (upload_folder_recursive env cb L (Some t) dest [])) ! 0 =
       CreateFolder (basename L) dest \<and>
     (\<forall>(q, d) \<in> set (subdirs t).
        c q < c (q @ [d]) \<and>
        c (q @ [d]) < length (requests (snd (upload_folder_recursive env cb L (Some t) dest []))) \<and>
        requests (snd (upload_folder_recursive env cb L (Some t) dest [])) ! c (q @ [d]) =
          CreateFolder d (the_id env (c q))) \<and>
     (\<forall>(q, f) \<in> set (files_in t).
        \<exists>u. c q < u \<and>
          u < length (requests (snd (upload_folder_recursive env cb L (Some t) dest []))) \<and>
          requests (snd (upload_folder_recursive env cb L (Some t) dest [])) ! u =
            UploadFile (local_path L (q @ [f])) (the_id env (c q)))"
proof -
  let ?idf = "the_id env"
  let ?T = "tree_requests ?idf L [] (?idf 0) (Suc 0) t"
  let ?R = "requests (snd (upload_folder_recursive env cb L (Some t) dest []))"
  from upload_folder_recursive_refines [OF assms(2,1), of cb L dest "[]"]
  have res: "fst (upload_folder_recursive env cb L (Some t) dest []) = Inr (?idf 0)"
    and R: "?R = CreateFolder (basename L) dest # ?T"
    by auto
  from mirrors_tree_children(1) [OF assms(1) refl, of 0 "Suc 0" ?idf L "[]"]
  obtain c where c0: "c [] = 0" and mir: "mirrors ?idf L [] t c ?T (Suc 0)"
    by auto
  have at: "i < length ?R \<and> ?R ! i = r" if "placed ?T (Suc 0) i r" for i r
    using that unfolding R by (auto simp: placed_def nth_Cons')
  have dirs: "\<forall>(q, d) \<in> set (subdirs t).
        c q < c (q @ [d]) \<and> c (q @ [d]) < length ?R \<and>
        ?R ! c (q @ [d]) = CreateFolder d (?idf (c q))"
    using mir at unfolding mirrors_def by fast
  have files: "\<forall>(q, f) \<in> set (files_in t).
        \<exists>u. c q < u \<and> u < length ?R \<and>
          ?R ! u = UploadFile (local_path L (q @ [f])) (?idf (c q))"
  proof (intro ballI, clarify)
    fix q f assume "(q, f) \<in> set (files_in t)"
    with mir obtain u where "c q < u"
      "placed ?T (Suc 0) u (UploadFile (local_path L ([] @ q @ [f])) (?idf (c q)))"
      unfolding mirrors_def by blast
    with at show "\<exists>u. c q < u \<and> u < length ?R \<and>
          ?R ! u = UploadFile (local_path L (q @ [f])) (?idf (c q))"
      by auto
  qed
  have len: "length ?R = Suc (length (subdirs t) + length (files_in t))"
    by (simp add: R length_tree_children_requests(1))
  have first: "?R ! 0 = CreateFolder (basename L) dest" by (simp add: R)
  from c0 res len first dirs files show ?thesis by blast
qed

text \<open>
  The tree \<open>root/{a.txt, sub/{b.txt}}\<close>: the folder \<open>sub\<close> is created (second call) before
  \<open>b.txt\<close> is uploaded (fourth call) into it, and \<open>a.txt\<close> is uploaded into the folder
  \<open>F0\<close> of the first call, not into \<open>F1\<close>, the folder of \<open>sub\<close>.
\<close>

theorem folder_upload_parent_before_child_witness:
  "wf_tree example_tree \<and>
   (\<forall>n. \<not> isl (answer (example_env [Inr ''F0'', Inr ''F1''] None) n)) \<and>
   subdirs example_tree = [([], ''sub'')] \<and>
   files_in example_tree = [([], ''a.txt''), ([''sub''], ''b.txt'')] \<and>
   requests (snd (upload_folder_recursive
     (example_env [Inr ''F0'', Inr ''F1''] None)
     True ''/home/u/root'' (Some example_tree) ''dest'' [])) =
   [CreateFolder ''root'' ''dest'', CreateFolder ''sub'' ''F0'',
    UploadFile ''/home/u/root/a.txt'' ''F0'', UploadFile ''/home/u/root/sub/b.txt'' ''F1'']"
proof -
  let ?env = "(example_env [Inr ''F0'', Inr ''F1''] None)"
  have wf: "wf_tree example_tree" by (simp add: example_tree_def)
  have ok: "\<forall>n. \<not> isl (answer ?env n)" by (simp add: answers_of_all_Inr example_env_def)
  have run: "requests (snd (upload_folder_recursive ?env True ''/home/u/root''
       (Some example_tree) ''dest'' [])) =
     [CreateFolder ''root'' ''dest'', CreateFolder ''sub'' ''F0'',
      UploadFile ''/home/u/root/a.txt'' ''F0'', UploadFile ''/home/u/root/sub/b.txt'' ''F1'']"
    by (simp add: upload_folder_recursive_def create_folder_def
        upload_file_def drive_call_def notify_def example_tree_def answers_of_def basename_def
        local_path_def path_join_def example_env_def Let_def)
  have paths: "subdirs example_tree = [([], ''sub'')]"
    "files_in example_tree = [([], ''a.txt''), ([''sub''], ''b.txt'')]"
    by (simp_all add: example_tree_def)
  from folder_upload_parent_before_child [OF wf ok, of True "''/home/u/root''" "''dest''"]
    wf ok run paths
  show ?thesis by blast
qed

section \<open>Properties of the listing\<close>

text \<open>
  An entry that has an id and a title yields its item when it is listed, and raises
  \<open>ValueError\<close> otherwise.
\<close>

lemma file_item_of_listed:
  assumes "entry_listed int_of f"
  shows "file_item_of int_of parent f = Inr (entry_item int_of parent f)"
  using assms
  by (auto simp: entry_listed_def entry_item_def file_item_of_def file_size_def FileItem_def
        get_or_def split: option.splits)

lemma file_item_of_not_listed:
  assumes "f ''id'' \<noteq> None" and "f ''title'' \<noteq> None" and "\<not> entry_listed int_of f"
  shows "\<exists>m. file_item_of int_of parent f = Inl (ValueError m)"
  using assms
  by (auto simp: entry_listed_def file_item_of_def file_size_def FileItem_def
        split: option.splits)

lemma file_item_of_missing_key:
  assumes "f ''id'' = None \<or> f ''title'' = None"
  shows "\<exists>k. file_item_of int_of parent f = Inl (KeyError k)"
  using assms by (auto simp: file_item_of_def split: option.splits)

text \<open>The loop collects the items of the listed entries, in the order of the entries.\<close>

lemma collect_listed:
  assumes "\<forall>f \<in> set fs. f ''id'' \<noteq> None \<and> f ''title'' \<noteq> None"
  shows "collect int_of parent fs items =
         Inr (items @ map (entry_item int_of parent) (filter (entry_listed int_of) fs))"
  using assms
proof (induction fs arbitrary: items)
  case Nil
  show ?case by simp
next
  case (Cons f fs)
  from Cons.prems have keys: "f ''id'' \<noteq> None" "f ''title'' \<noteq> None"
    and rest: "\<forall>f \<in> set fs. f ''id'' \<noteq> None \<and> f ''title'' \<noteq> None" by simp_all
  show ?case
  proof (cases "entry_listed int_of f")
    case True
    then show ?thesis
      using Cons.IH [OF rest] by (simp add: file_item_of_listed)
  next
    case False
    from file_item_of_not_listed [OF keys False, of parent]
    obtain m where "file_item_of int_of parent f = Inl (ValueError m)" ..
    with False show ?thesis
      using Cons.IH [OF rest] by simp
  qed
qed

text \<open>
  An entry without the key \<open>id\<close> or the key \<open>title\<close> raises \<open>KeyError\<close>, which the loop does
  not catch: the listing returns exactly when the remote query answers and every entry
  has both keys, as every entry of the Drive service has.
\<close>

lemma collect_missing_key:
  assumes "\<exists>f \<in> set fs. f ''id'' = None \<or> f ''title'' = None"
  shows "\<exists>k. collect int_of parent fs items = Inl (KeyError k)"
  using assms
proof (induction fs arbitrary: items)
  case Nil
  then show ?case by simp
next
  case (Cons f fs)
  show ?case
  proof (cases "f ''id'' = None \<or> f ''title'' = None")
    case True
    from file_item_of_missing_key [OF True, of int_of parent]
    show ?thesis by auto
  next
    case False
    with Cons.prems have rest: "\<exists>f \<in> set fs. f ''id'' = None \<or> f ''title'' = None" by auto
    from False have keys: "f ''id'' \<noteq> None" "f ''title'' \<noteq> None" by simp_all
    show ?thesis
    proof (cases "entry_listed int_of f")
      case True
      then show ?thesis
        using Cons.IH [OF rest] by (simp add: file_item_of_listed)
    next
      case False
      from file_item_of_not_listed [OF keys False, of parent]
      obtain m where "file_item_of int_of parent f = Inl (ValueError m)" ..
      then show ?thesis
        using Cons.IH [OF rest] by simp
    qed
  qed
qed

lemma list_files_returns_iff:
  "(\<exists>items. list_files int_of lower ListFile parent = Inr items) \<longleftrightarrow>
   (\<exists>file_list. ListFile parent = Inr file_list \<and>
      (\<forall>f \<in> set file_list. f ''id'' \<noteq> None \<and> f ''title'' \<noteq> None))"
proof (cases "ListFile parent")
  case (Inl e)
  then show ?thesis by (simp add: list_files_def)
next
  case (Inr file_list)
  show ?thesis
  proof (cases "\<forall>f \<in> set file_list. f ''id'' \<noteq> None \<and> f ''title'' \<noteq> None")
    case True
    then show ?thesis by (simp add: list_files_def Inr collect_listed)
  next
    case False
    then have "\<exists>f \<in> set file_list. f ''id'' = None \<or> f ''title'' = None" by auto
    from collect_missing_key [OF this, of int_of parent "[]"]
    obtain k where "collect int_of parent file_list [] = Inl (KeyError k)" ..
    with False show ?thesis by (simp add: list_files_def Inr)
  qed
qed

lemma entry_item_fields:
  assumes "entry_listed int_of f"
  shows "item_id (entry_item int_of parent f) \<noteq> [] \<and> title (entry_item int_of parent f) \<noteq> [] \<and>
         parent_id (entry_item int_of parent f) = parent \<and>
         (is_folder (entry_item int_of parent f) \<longleftrightarrow>
            mime_type (entry_item int_of parent f) = ''application/vnd.google-apps.folder'')"
  using assms by (auto simp: entry_listed_def entry_item_def split: option.splits)

lemma listing_key_le:
  "listing_key lower x \<le> listing_key lower y \<longleftrightarrow>
   (is_folder x \<and> \<not> is_folder y) \<or>
   (is_folder x = is_folder y \<and> lower (title x) \<le> lower (title y))"
  by (auto simp: listing_key_def less_eq_prod_def)

text \<open>
  Claim C10. When the remote query answers with a list of entries, each with an \<open>id\<close>
  and a \<open>title\<close>, \<open>list_files\<close> returns a list \<open>items\<close> such that

  \<^item> every folder comes before every non-folder;
  \<^item> among folders and among non-folders the titles are in the order of their lower-case
    forms, that is, the list is sorted by the key \<open>(not is_folder, title.lower())\<close>;
  \<^item> the list holds exactly the items of the listed entries, each as often as the entry
    occurs: every entry with a non-empty id, a non-empty title and a \<open>fileSize\<close> that is
    absent or a number is returned, with the id, title, size, date and mime type of the
    entry, and nothing else is returned;
  \<^item> items with the same key stand in the order of their entries;
  \<^item> every item has a non-empty id and a non-empty title, has the listed folder as its
    parent, and is a folder exactly when its mime type is that of a Drive folder;
  \<^item> an entry with an empty id or an empty title raises \<open>ValueError\<close> in the loop, gives no
    item, and the listing does not fail.
\<close>

theorem list_files_sorted_and_skips:
  assumes "ListFile parent = Inr file_list"
      and "\<forall>f \<in> set file_list. f ''id'' \<noteq> None \<and> f ''title'' \<noteq> None"
  shows "\<exists>items. list_files int_of lower ListFile parent = Inr items \<and>
           (\<forall>i j. i < j \<and> j < length items \<and> is_folder (items ! j) \<longrightarrow> is_folder (items ! i)) \<and>
           (\<forall>i j. i < j \<and> j < length items \<and> is_folder (items ! i) = is_folder (items ! j) \<longrightarrow>
                  lower (title (items ! i)) \<le> lower (title (items ! j))) \<and>
           sorted (map (listing_key lower) items) \<and>
           mset items =
             mset (map (entry_item int_of parent) (filter (entry_listed int_of) file_list)) \<and>
           (\<forall>k. filter (\<lambda>x. listing_key lower x = k) items =
                filter (\<lambda>x. listing_key lower x = k)
                  (map (entry_item int_of parent) (filter (entry_listed int_of) file_list))) \<and>
           (\<forall>x \<in> set items. item_id x \<noteq> [] \<and> title x \<noteq> [] \<and> parent_id x = parent \<and>
              (is_folder x \<longleftrightarrow> mime_type x = ''application/vnd.google-apps.folder'')) \<and>
           (\<forall>f \<in> set file_list. f ''id'' = Some [] \<or> f ''title'' = Some [] \<longrightarrow>
              \<not> entry_listed int_of f \<and>
              (\<exists>m. file_item_of int_of parent f = Inl (ValueError m)))"
proof -
  let ?listed = "map (entry_item int_of parent) (filter (entry_listed int_of) file_list)"
  let ?items = "sort_key (listing_key lower) ?listed"
  have res: "list_files int_of lower ListFile parent = Inr ?items"
    by (simp add: list_files_def assms(1) collect_listed [OF assms(2)])
  have srt: "sorted (map (listing_key lower) ?items)" by simp
  have le: "listing_key lower (?items ! i) \<le> listing_key lower (?items ! j)"
    if "i < j" "j < length ?items" for i j
    using srt that by (simp add: sorted_iff_nth_mono del: sorted_sort_key)
  have folders: "\<forall>i j. i < j \<and> j < length ?items \<and> is_folder (?items ! j) \<longrightarrow> is_folder (?items ! i)"
    using le by (auto simp: listing_key_le)
  have titles: "\<forall>i j. i < j \<and> j < length ?items \<and> is_folder (?items ! i) = is_folder (?items ! j) \<longrightarrow>
      lower (title (?items ! i)) \<le> lower (title (?items ! j))"
    using le by (auto simp: listing_key_le)
  have same: "mset ?items = mset ?listed" by simp
  have stable: "\<forall>k. filter (\<lambda>x. listing_key lower x = k) ?items =
      filter (\<lambda>x. listing_key lower x = k) ?listed"
    by (simp add: sort_key_stable)
  have valid: "\<forall>x \<in> set ?items. item_id x \<noteq> [] \<and> title x \<noteq> [] \<and> parent_id x = parent \<and>
      (is_folder x \<longleftrightarrow> mime_type x = ''application/vnd.google-apps.folder'')"
  proof
    fix x assume "x \<in> set ?items"
    then obtain f where "entry_listed int_of f" and "x = entry_item int_of parent f" by auto
    with entry_item_fields [of int_of f parent]
    show "item_id x \<noteq> [] \<and> title x \<noteq> [] \<and> parent_id x = parent \<and>
      (is_folder x \<longleftrightarrow> mime_type x = ''application/vnd.google-apps.folder'')" by simp
  qed
  have skipped: "\<forall>f \<in> set file_list. f ''id'' = Some [] \<or> f ''title'' = Some [] \<longrightarrow>
      \<not> entry_listed int_of f \<and> (\<exists>m. file_item_of int_of parent f = Inl (ValueError m))"
  proof (intro ballI impI)
    fix f assume f: "f \<in> set file_list" and e: "f ''id'' = Some [] \<or> f ''title'' = Some []"
    from e have no: "\<not> entry_listed int_of f" by (auto simp: entry_listed_def)
    from f assms(2) have keys: "f ''id'' \<noteq> None" "f ''title'' \<noteq> None" by auto
    from no file_item_of_not_listed [OF keys no, of parent]
    show "\<not> entry_listed int_of f \<and> (\<exists>m. file_item_of int_of parent f = Inl (ValueError m))"
      by simp
  qed
  show ?thesis
  proof (intro exI conjI)
    show "list_files int_of lower ListFile parent = Inr ?items" by (rule res)
  qed (rule folders titles srt same stable valid skipped)+
qed

text \<open>
  Five entries, one with an empty title and one whose size is not a number: the folder
  comes first, \<open>alpha.txt\<close> comes before \<open>Beta.txt\<close>, and the two other entries are left
  out.
\<close>

theorem list_files_sorted_and_skips_witness:
  "example_listing ''root'' = Inr example_entries \<and>
   list_all (\<lambda>f. f ''id'' \<noteq> None \<and> f ''title'' \<noteq> None) example_entries \<and>
   list_files py_int ascii_lower example_listing ''root'' =
     Inr [\<lparr>item_id = ''4'', title = ''zeta'', item_size = 0, modified_date = [],
            mime_type = ''application/vnd.google-apps.folder'', is_folder = True,
            parent_id = ''root''\<rparr>,
          \<lparr>item_id = ''3'', title = ''alpha.txt'', item_size = 1024,
            modified_date = ''2024-05-01'', mime_type = [], is_folder = False,
            parent_id = ''root''\<rparr>,
          \<lparr>item_id = ''1'', title = ''Beta.txt'', item_size = 12, modified_date = [],
            mime_type = ''text/plain'', is_folder = False, parent_id = ''root''\<rparr>]"
proof -
  have run: "list_files py_int ascii_lower example_listing ''root'' =
     Inr [\<lparr>item_id = ''4'', title = ''zeta'', item_size = 0, modified_date = [],
            mime_type = ''application/vnd.google-apps.folder'', is_folder = True,
            parent_id = ''root''\<rparr>,
          \<lparr>item_id = ''3'', title = ''alpha.txt'', item_size = 1024,
            modified_date = ''2024-05-01'', mime_type = [], is_folder = False,
            parent_id = ''root''\<rparr>,
          \<lparr>item_id = ''1'', title = ''Beta.txt'', item_size = 12, modified_date = [],
            mime_type = ''text/plain'', is_folder = False, parent_id = ''root''\<rparr>]"
    by code_simp
  have keys: "\<forall>f \<in> set example_entries. f ''id'' \<noteq> None \<and> f ''title'' \<noteq> None"
    by (simp add: example_entries_def)
  from list_files_sorted_and_skips [of example_listing "''root''" example_entries py_int ascii_lower]
    run keys
  show ?thesis by (simp add: example_listing_def list_all_iff)
qed

end
